theory Spec2Isabelle
  imports Complex_Main "HOL-Library.Sublist"
begin

section \<open>Python string primitives used by \<open>docling_processor.py\<close>\<close>

text \<open>
  A Python \<open>str\<close> is modelled as a \<open>string\<close>; one \<open>char\<close> stands for one code point
  below 256. \<open>isspace\<close> lists the code points below 256 for which \<open>str.isspace\<close> holds;
  these are the characters removed by \<open>str.strip()\<close> and separating the tokens of
  \<open>str.split()\<close>.
\<close>

definition isspace :: "char \<Rightarrow> bool" where
  "isspace c \<longleftrightarrow> c \<in> set [CHR 0x09, CHR 0x0A, CHR 0x0B, CHR 0x0C, CHR 0x0D,
                            CHR 0x1C, CHR 0x1D, CHR 0x1E, CHR 0x1F, CHR 0x20,
                            CHR 0x85, CHR 0xA0]"

definition lstrip_chars :: "(char \<Rightarrow> bool) \<Rightarrow> string \<Rightarrow> string" where
  "lstrip_chars P s = dropWhile P s"

definition rstrip_chars :: "(char \<Rightarrow> bool) \<Rightarrow> string \<Rightarrow> string" where
  "rstrip_chars P s = rev (dropWhile P (rev s))"

definition strip_chars :: "(char \<Rightarrow> bool) \<Rightarrow> string \<Rightarrow> string" where
  "strip_chars P s = lstrip_chars P (rstrip_chars P s)"

text \<open>\<open>s.strip()\<close>\<close>
definition strip :: "string \<Rightarrow> string" where
  "strip s = strip_chars isspace s"

text \<open>\<open>s.strip('#')\<close> and \<open>s.lstrip('#')\<close>\<close>
definition strip_hash :: "string \<Rightarrow> string" where
  "strip_hash s = strip_chars (\<lambda>c. c = CHR ''#'') s"

definition lstrip_hash :: "string \<Rightarrow> string" where
  "lstrip_hash s = lstrip_chars (\<lambda>c. c = CHR ''#'') s"

text \<open>\<open>s.startswith(p)\<close>\<close>
definition startswith :: "string \<Rightarrow> string \<Rightarrow> bool" where
  "startswith s p \<longleftrightarrow> take (length p) s = p"

text \<open>\<open>s.split(sep)\<close> for a one-character separator: never the empty list.\<close>
fun split_on :: "char \<Rightarrow> string \<Rightarrow> string list" where
  "split_on sep [] = [[]]"
| "split_on sep (c # cs) =
     (if c = sep then [] # split_on sep cs
      else (case split_on sep cs of [] \<Rightarrow> [[c]] | l # ls \<Rightarrow> (c # l) # ls))"

text \<open>\<open>s.split()\<close>: the maximal runs of non-whitespace characters; \<open>cur\<close> is the run
  being read.\<close>
fun split_ws_from :: "string \<Rightarrow> string \<Rightarrow> string list" where
  "split_ws_from cur [] = (if cur = [] then [] else [cur])"
| "split_ws_from cur (c # cs) =
     (if isspace c then (if cur = [] then split_ws_from [] cs else cur # split_ws_from [] cs)
      else split_ws_from (cur @ [c]) cs)"

definition split_ws :: "string \<Rightarrow> string list" where
  "split_ws s = split_ws_from [] s"

text \<open>\<open>sep.join(xs)\<close>\<close>
fun join :: "string \<Rightarrow> string list \<Rightarrow> string" where
  "join sep [] = []"
| "join sep [x] = x"
| "join sep (x # y # ys) = x @ sep @ join sep (y # ys)"

text \<open>\<open>s.count('\n')\<close>\<close>
definition count_newlines :: "string \<Rightarrow> nat" where
  "count_newlines s = length (filter (\<lambda>c. c = CHR 0x0A) s)"

section \<open>Reading time\<close>

text \<open>
  Python 3's \<open>round(n / d)\<close> for non-negative integers \<open>n\<close> and positive \<open>d\<close>: the
  quotient is rounded to the nearest integer, a tie going to the even neighbour. The source
  divides in double precision; a double quotient of a word count below \<open>2 ^ 52\<close> lies on
  the same side of every half-integer as the exact quotient, so the exact quotient is
  rounded here.
\<close>
definition py_round_div :: "nat \<Rightarrow> nat \<Rightarrow> nat" where
  "py_round_div n d =
     (let q = n div d; r = n mod d
      in if 2 * r < d then q
         else if d < 2 * r then q + 1
         else if even q then q else q + 1)"

text \<open>\<open>estimate_reading_time\<close> (function-based entry point, 225 words per minute)\<close>
definition estimate_reading_time :: "string \<Rightarrow> int" where
  "estimate_reading_time content =
     (let words = length (split_ws content)
      in max 1 (int (py_round_div words 225)))"

text \<open>\<open>DoclingProcessor._estimate_reading_time\<close> (class-based processor, 200 words per
  minute)\<close>
definition estimate_reading_time_cls :: "string \<Rightarrow> int" where
  "estimate_reading_time_cls content =
     (let word_count = length (split_ws content);
          minutes = max 1 (int (py_round_div word_count 200))
      in minutes)"

section \<open>Section segmentation\<close>

record Section =
  title :: string
  content :: string
  order_index :: nat
  estimated_minutes :: int

text \<open>The local variables of the loop of \<open>process_sections\<close>.\<close>
record seg_state =
  st_sections :: "Section list"
  st_current :: "Section option"
  st_content :: "string list"
  st_order_index :: nat

text \<open>
  \<open>if current_section and section_content: ... sections.append(current_section)\<close>: a
  section dictionary is truthy, \<open>None\<close> and the empty list are not.
\<close>
definition save_section :: "seg_state \<Rightarrow> Section list" where
  "save_section st =
     (case st_current st of
        None \<Rightarrow> st_sections st
      | Some cur \<Rightarrow>
          if st_content st \<noteq> [] then
            (let c = strip (join [CHR 0x0A] (st_content st))
             in st_sections st @ [cur\<lparr>content := c, estimated_minutes := estimate_reading_time c\<rparr>])
          else st_sections st)"

text \<open>One iteration of \<open>for line in lines\<close>. The source also computes \<open>header_level\<close>,
  which it never uses.\<close>
definition seg_step :: "seg_state \<Rightarrow> string \<Rightarrow> seg_state" where
  "seg_step st line =
     (if startswith line ''#'' then
        \<lparr>st_sections = save_section st,
         st_current = Some \<lparr>title = strip (strip_hash line), content = [],
                            order_index = st_order_index st, estimated_minutes = 0\<rparr>,
         st_content = [],
         st_order_index = st_order_index st + 1\<rparr>
      else if strip line \<noteq> [] then st\<lparr>st_content := st_content st @ [line]\<rparr>
      else st)"

definition seg_init :: seg_state where
  "seg_init = \<lparr>st_sections = [], st_current = None, st_content = [], st_order_index = 0\<rparr>"

definition process_sections :: "string \<Rightarrow> Section list" where
  "process_sections markdown_content =
     (let lines = split_on (CHR 0x0A) markdown_content;
          st = foldl seg_step seg_init lines;
          sections = save_section st
      in if sections = [] \<and> strip markdown_content \<noteq> [] then
           [\<lparr>title = ''Content'', content = strip markdown_content, order_index = 0,
             estimated_minutes = estimate_reading_time markdown_content\<rparr>]
         else sections)"

text \<open>The loop of \<open>DoclingProcessor._create_sections\<close> (class-based processor): its local
  variables, one iteration, and the function.\<close>
record cs_state =
  cs_sections :: "Section list"
  cs_current :: Section
  cs_index :: nat

definition cs_save :: "cs_state \<Rightarrow> Section list" where
  "cs_save st =
     (if strip (content (cs_current st)) \<noteq> [] then
        cs_sections st @
          [(cs_current st)\<lparr>estimated_minutes := estimate_reading_time_cls (content (cs_current st))\<rparr>]
      else cs_sections st)"

definition cs_step :: "cs_state \<Rightarrow> string \<Rightarrow> cs_state" where
  "cs_step st line =
     (let line_stripped = strip line
      in if startswith line_stripped ''# '' \<or> startswith line_stripped ''## '' then
           \<lparr>cs_sections = cs_save st,
            cs_current = \<lparr>title = strip (lstrip_hash line_stripped),
                           content = line @ [CHR 0x0A],
                           order_index = cs_index st + 1, estimated_minutes = 0\<rparr>,
            cs_index = cs_index st + 1\<rparr>
         else st\<lparr>cs_current := (cs_current st)\<lparr>content := content (cs_current st) @ line @ [CHR 0x0A]\<rparr>\<rparr>)"

definition cs_init :: cs_state where
  "cs_init = \<lparr>cs_sections = [],
              cs_current = \<lparr>title = ''Introduction'', content = [], order_index = 0,
                             estimated_minutes = 0\<rparr>,
              cs_index = 0\<rparr>"

definition create_sections :: "string \<Rightarrow> Section list" where
  "create_sections markdown =
     (let lines = split_on (CHR 0x0A) markdown
      in cs_save (foldl cs_step cs_init lines))"

section \<open>The reading-time contract in the specification's words\<close>

text \<open>
  A whitespace-delimited token starts at every position that holds a non-whitespace
  character and is either the first position or follows a whitespace character. For
  \<open>token_starts b s\<close> the flag \<open>b\<close> says whether a token may start at position 0.
\<close>
definition token_starts :: "bool \<Rightarrow> string \<Rightarrow> nat list" where
  "token_starts b s =
     filter (\<lambda>i. \<not> isspace (s ! i) \<and> (if i = 0 then b else isspace (s ! (i - 1)))) [0..<length s]"

definition spec_word_count :: "string \<Rightarrow> nat" where
  "spec_word_count s = length (token_starts True s)"

text \<open>Rounding a real number to the nearest integer, a tie going to the even neighbour.\<close>
definition round_half_even :: "real \<Rightarrow> int" where
  "round_half_even x =
     (if frac x < 1 / 2 then \<lfloor>x\<rfloor>
      else if 1 / 2 < frac x then \<lfloor>x\<rfloor> + 1
      else if even \<lfloor>x\<rfloor> then \<lfloor>x\<rfloor> else \<lfloor>x\<rfloor> + 1)"

section \<open>Vocabulary for the segmentation properties\<close>

text \<open>A heading line of \<open>process_sections\<close>, a blank line, and the lines of the input.\<close>
definition is_heading :: "string \<Rightarrow> bool" where
  "is_heading line \<longleftrightarrow> startswith line ''#''"

definition is_blank :: "string \<Rightarrow> bool" where
  "is_blank line \<longleftrightarrow> strip line = []"

definition lines_of :: "string \<Rightarrow> string list" where
  "lines_of markdown_content = split_on (CHR 0x0A) markdown_content"

definition heading_count :: "string \<Rightarrow> nat" where
  "heading_count markdown_content = length (filter is_heading (lines_of markdown_content))"

text \<open>The text with every whitespace character removed: two texts are equal modulo
  whitespace when these agree.\<close>
definition nonspace :: "string \<Rightarrow> string" where
  "nonspace s = filter (\<lambda>c. \<not> isspace c) s"

text \<open>
  \<open>headings_filled pending ls\<close>: every heading line of \<open>ls\<close> is followed by a non-blank
  line before the next heading line or the end; \<open>pending\<close> says that a heading has been
  read and no non-blank line after it yet.
\<close>
fun headings_filled :: "bool \<Rightarrow> string list \<Rightarrow> bool" where
  "headings_filled pending [] = (\<not> pending)"
| "headings_filled pending (l # ls) =
     (if is_heading l then \<not> pending \<and> headings_filled True ls
      else if is_blank l then headings_filled pending ls
      else headings_filled False ls)"

text \<open>
  \<open>some_heading_filled inside ls\<close>: some heading line is followed by a non-blank line
  before the next heading line or the end; \<open>inside\<close> says that a heading has been read.
\<close>
fun some_heading_filled :: "bool \<Rightarrow> string list \<Rightarrow> bool" where
  "some_heading_filled inside [] = False"
| "some_heading_filled inside (l # ls) =
     (if is_heading l then some_heading_filled True ls
      else if is_blank l then some_heading_filled inside ls
      else inside \<or> some_heading_filled inside ls)"

text \<open>The body of the input: its lines that are not heading lines.\<close>
definition body_lines :: "string \<Rightarrow> string list" where
  "body_lines markdown_content = filter (\<lambda>l. \<not> is_heading l) (lines_of markdown_content)"

text \<open>The lines before the first heading line.\<close>
definition leading_lines :: "string \<Rightarrow> string list" where
  "leading_lines markdown_content = takeWhile (\<lambda>l. \<not> is_heading l) (lines_of markdown_content)"

section \<open>Loop invariants\<close>

text \<open>The invariant of the loop for the order indices.\<close>
definition idx_inv :: "seg_state \<Rightarrow> bool" where
  "idx_inv st \<longleftrightarrow>
     sorted_wrt (<) (map order_index (st_sections st)) \<and>
     (case st_current st of
        None \<Rightarrow> st_sections st = []
      | Some cur \<Rightarrow> st_order_index st = Suc (order_index cur) \<and>
                   (\<forall>i\<in>set (map order_index (st_sections st)). i < order_index cur))"

text \<open>The stronger invariant when every heading has content.\<close>
definition filled_inv :: "seg_state \<Rightarrow> bool" where
  "filled_inv st \<longleftrightarrow>
     (case st_current st of
        None \<Rightarrow> st_sections st = [] \<and> st_order_index st = 0
      | Some cur \<Rightarrow> st_order_index st = Suc (order_index cur) \<and>
                   map order_index (st_sections st) = [0..<order_index cur])"

definition pending :: "seg_state \<Rightarrow> bool" where
  "pending st \<longleftrightarrow> st_current st \<noteq> None \<and> st_content st = []"

text \<open>The title that \<open>process_sections\<close> gives the section of a heading line.\<close>
definition heading_title :: "string \<Rightarrow> string" where
  "heading_title line = strip (strip_hash line)"

text \<open>The invariant of the loop of \<open>_create_sections\<close> for the order indices.\<close>
definition cs_inv :: "cs_state \<Rightarrow> bool" where
  "cs_inv st \<longleftrightarrow>
     sorted_wrt (<) (map order_index (cs_sections st)) \<and>
     list_all (\<lambda>x. order_index x < order_index (cs_current st)) (cs_sections st) \<and>
     order_index (cs_current st) = cs_index st"

section \<open>Regular-expression search\<close>

text \<open>
  The three kinds of pieces of the patterns of the source, as the backtracking matcher of
  \<open>re\<close> treats them. \<open>lazy_until close s\<close> is the non-greedy \<open>(.*?)\<close> under
  \<open>re.DOTALL\<close> followed by the literal \<open>close\<close>: the number of characters captured,
  which is the least number after which \<open>close\<close> matches, or \<open>None\<close> if there is none.
\<close>
fun lazy_until :: "string \<Rightarrow> string \<Rightarrow> nat option" where
  "lazy_until close [] = (if close = [] then Some 0 else None)"
| "lazy_until close (c # cs) =
     (if startswith (c # cs) close then Some 0
      else map_option Suc (lazy_until close cs))"

text \<open>The code points below 256 that \<open>\w\<close> matches in a \<open>str\<close> pattern: the
  alphanumeric characters and the underscore.\<close>
definition is_word_char :: "char \<Rightarrow> bool" where
  "is_word_char c =
     (let n = (of_char c :: nat)
      in (48 \<le> n \<and> n \<le> 57) \<or> (65 \<le> n \<and> n \<le> 90) \<or> n = 95 \<or> (97 \<le> n \<and> n \<le> 122) \<or>
         n = 170 \<or> n = 178 \<or> n = 179 \<or> n = 181 \<or> n = 185 \<or> n = 186 \<or>
         (188 \<le> n \<and> n \<le> 190) \<or> (192 \<le> n \<and> n \<le> 214) \<or> (216 \<le> n \<and> n \<le> 246) \<or>
         248 \<le> n)"

text \<open>
  A pattern \<open>OPEN(.*?)CLOSE\<close> with literal delimiters, tried at the start of \<open>s\<close>: the
  captured group and the length of the match.
\<close>
definition match_delim :: "string \<times> string \<Rightarrow> string \<Rightarrow> (string \<times> nat) option" where
  "match_delim p s =
     (let opn = fst p; cls = snd p
      in if startswith s opn then
           (case lazy_until cls (drop (length opn) s) of
              None \<Rightarrow> None
            | Some k \<Rightarrow> Some (take k (drop (length opn) s), length opn + k + length cls))
         else None)"

text \<open>
  \<open>code_block_pattern\<close>, three backticks, \<open>(\w+)?\<close>, a newline, \<open>(.*?)\<close>, a newline and
  three backticks, tried at the start of \<open>s\<close>: group 1 (absent when no word character
  follows the fence), group 2 and the length of the match. The greedy \<open>\w+\<close> takes the
  longest run of word characters; a shorter run is followed by a word character and not
  by the newline, so backtracking into the group never succeeds.
\<close>
definition fence :: string where
  "fence = [CHR 0x60, CHR 0x60, CHR 0x60]"

definition match_code_block :: "string \<Rightarrow> ((string option \<times> string) \<times> nat) option" where
  "match_code_block s =
     (if startswith s fence then
        (let r = drop 3 s;
             tag = takeWhile is_word_char r;
             r' = drop (length tag) r
         in if startswith r' [CHR 0x0A] then
              (case lazy_until (CHR 0x0A # fence) (drop 1 r') of
                 None \<Rightarrow> None
               | Some k \<Rightarrow>
                   Some ((if tag = [] then None else Some tag, take k (drop 1 r')),
                         3 + length tag + 1 + k + 4))
            else None)
      else None)"

text \<open>
  \<open>re.finditer\<close> from position \<open>pos\<close>: the leftmost match, then the search goes on at
  its end. A match is its start, its end and its groups. The patterns of the source never
  match the empty string; after an empty match the search would move one position on.
\<close>
function finditer :: "(string \<Rightarrow> ('g \<times> nat) option) \<Rightarrow> string \<Rightarrow> nat \<Rightarrow> (nat \<times> nat \<times> 'g) list" where
  "finditer m s pos =
     (if length s < pos then []
      else (case m (drop pos s) of
              None \<Rightarrow> finditer m s (Suc pos)
            | Some (g, n) \<Rightarrow> (pos, pos + n, g) # finditer m s (if n = 0 then Suc pos else pos + n)))"
  by pat_completeness auto
termination
  by (relation "measure (\<lambda>(m, s, pos). Suc (length s) - pos)") auto

section \<open>Code snippets\<close>

record CodeSnippet =
  code :: string
  language :: string
  snippet_description :: string
  line_start :: nat
  line_end :: nat

text \<open>The body of the loop of \<open>extract_code_snippets\<close>: the snippet of one match is
  appended.\<close>
definition snippet_step :: "string \<Rightarrow> CodeSnippet list \<Rightarrow> nat \<times> nat \<times> string option \<times> string \<Rightarrow> CodeSnippet list" where
  "snippet_step text code_snippets mt =
     (case mt of (m_start, m_end, group1, group2) \<Rightarrow>
        (let lang = (case group1 of None \<Rightarrow> ''unknown''
                     | Some t \<Rightarrow> if t = [] then ''unknown'' else t);
             cd = strip group2
         in code_snippets @
              [\<lparr>code = cd, language = lang,
                snippet_description = ''Code snippet in '' @ lang,
                line_start = count_newlines (take m_start text) + 1,
                line_end = count_newlines (take m_end text) + 1\<rparr>]))"

definition extract_code_snippets :: "string \<Rightarrow> CodeSnippet list" where
  "extract_code_snippets text = foldl (snippet_step text) [] (finditer match_code_block text 0)"

section \<open>Formulas\<close>

record Formula =
  formula :: string
  formula_description :: string
  formula_type :: string
  line_number :: nat

text \<open>\<open>formula_patterns\<close>: display math, inline math and the equation environment, each
  given by its opening and closing delimiter.\<close>
definition formula_patterns :: "(string \<times> string) list" where
  "formula_patterns =
     [(''$$'', ''$$''),
      (''$'', ''$''),
      (CHR 0x5C # ''begin{equation}'', CHR 0x5C # ''end{equation}'')]"

text \<open>The body of the inner loop of \<open>extract_formulas\<close>.\<close>
definition formula_step :: "string \<Rightarrow> Formula list \<Rightarrow> nat \<times> nat \<times> string \<Rightarrow> Formula list" where
  "formula_step text formulas mt =
     (case mt of (m_start, m_end, group1) \<Rightarrow>
        (let f = strip group1
         in if f \<noteq> [] then
              formulas @
                [\<lparr>formula = f,
                  formula_description =
                    ''Mathematical expression: '' @ take 50 f @ (if 50 < length f then ''...'' else ''''),
                  formula_type = ''mathematical'',
                  line_number = count_newlines (take m_start text) + 1\<rparr>]
            else formulas))"

definition extract_formulas :: "string \<Rightarrow> Formula list" where
  "extract_formulas text =
     foldl (\<lambda>formulas pattern. foldl (formula_step text) formulas (finditer (match_delim pattern) text 0))
       [] formula_patterns"

section \<open>Vocabulary for the extraction properties\<close>

text \<open>The snippet that the contract gives for a match with span \<open>[a, b)\<close>, optional
  language tag and body.\<close>
definition snippet_of_match :: "string \<Rightarrow> nat \<times> nat \<times> string option \<times> string \<Rightarrow> CodeSnippet" where
  "snippet_of_match text mt =
     (case mt of (a, b, tag, body) \<Rightarrow>
        \<lparr>code = strip body,
         language = (case tag of None \<Rightarrow> ''unknown'' | Some t \<Rightarrow> t),
         snippet_description = ''Code snippet in '' @ (case tag of None \<Rightarrow> ''unknown'' | Some t \<Rightarrow> t),
         line_start = count_newlines (take a text) + 1,
         line_end = count_newlines (take b text) + 1\<rparr>)"

text \<open>The span \<open>[a, b)\<close> of the text holds a fenced code block with this tag and body: the
  opening fence, the tag (word characters, not empty when present), a newline, the body, a
  newline and the closing fence.\<close>
definition fenced_block_at :: "string \<Rightarrow> nat \<times> nat \<times> string option \<times> string \<Rightarrow> bool" where
  "fenced_block_at text mt =
     (case mt of (a, b, tag, body) \<Rightarrow>
        a \<le> b \<and> b \<le> length text \<and> tag \<noteq> Some [] \<and>
        list_all is_word_char (case tag of None \<Rightarrow> [] | Some t \<Rightarrow> t) \<and>
        take (b - a) (drop a text) =
          fence @ (case tag of None \<Rightarrow> [] | Some t \<Rightarrow> t) @ [CHR 0x0A] @ body @ [CHR 0x0A] @ fence)"

text \<open>Matches in order of position: an earlier match ends where a later one starts, or
  before.\<close>
definition in_text_order :: "(nat \<times> nat \<times> 'g) list \<Rightarrow> bool" where
  "in_text_order ms = sorted_wrt (\<lambda>x y. fst x < fst y \<and> fst (snd x) \<le> fst y) ms"

text \<open>The formula record of a match, and the records of one pattern family: those of
  its matches whose capture is not blank, in the order of the matches.\<close>
definition formula_of_match :: "string \<Rightarrow> nat \<times> nat \<times> string \<Rightarrow> Formula" where
  "formula_of_match text mt =
     (case mt of (a, b, g) \<Rightarrow>
        \<lparr>formula = strip g,
         formula_description =
           ''Mathematical expression: '' @ take 50 (strip g) @
             (if 50 < length (strip g) then ''...'' else ''''),
         formula_type = ''mathematical'',
         line_number = count_newlines (take a text) + 1\<rparr>)"

definition family_matches :: "string \<Rightarrow> string \<times> string \<Rightarrow> (nat \<times> nat \<times> string) list" where
  "family_matches text p = filter (\<lambda>mt. \<not> is_blank (snd (snd mt))) (finditer (match_delim p) text 0)"

definition family_formulas :: "string \<Rightarrow> string \<times> string \<Rightarrow> Formula list" where
  "family_formulas text p = map (formula_of_match text) (family_matches text p)"

section \<open>The document object and its metadata\<close>

text \<open>
  The document object of the converter. The source probes it with \<open>hasattr\<close>: a field
  that may be missing is an option, \<open>None\<close> standing for a missing attribute. For the
  title, \<open>None\<close> also stands for the value \<open>None\<close>, which the source treats like a
  missing attribute. \<open>doc_markdown\<close> is the result of \<open>doc.export_to_markdown()\<close>, which
  the source calls without a guard.
\<close>
record Picture =
  pic_description :: "string option"
  pic_caption :: "string option"
  pic_text :: "string option"

record ('page, 'table) Document =
  doc_title :: "string option"
  doc_main_text :: "string option"
  doc_pages :: "'page list option"
  doc_private_pages :: "'page list option"
  doc_pictures :: "Picture list option"
  doc_tables :: "'table list option"
  doc_markdown :: string

text \<open>The command-line arguments.\<close>
record Args =
  no_ocr :: bool
  no_vlm :: bool
  vlm_model :: string
  enable_code_enrichment :: bool
  enable_formula_enrichment :: bool

record ProcessingInfo =
  ocr_enabled :: bool
  vlm_enabled :: bool
  code_enrichment_enabled :: bool
  formula_enrichment_enabled :: bool
  docling_version :: string
  info_vlm_model :: "string option"

record Metadata =
  meta_title :: string
  page_count :: nat
  has_images :: bool
  has_tables :: bool
  has_code :: bool
  has_formulas :: bool
  processing_info :: ProcessingInfo

record ImageDescription =
  image_id :: string
  image_description :: string
  confidence :: rat
  extracted_text :: "string option"

text \<open>\<open>p in s\<close> for strings, \<open>s.lower()\<close> on code points below 256, and \<open>str(i)\<close> for a
  non-negative integer.\<close>
definition contains :: "string \<Rightarrow> string \<Rightarrow> bool" where
  "contains s p = list_ex (\<lambda>i. startswith (drop i s) p) [0..<Suc (length s)]"

definition lower_char :: "char \<Rightarrow> char" where
  "lower_char c =
     (let n = (of_char c :: nat)
      in if (65 \<le> n \<and> n \<le> 90) \<or> (192 \<le> n \<and> n \<le> 222 \<and> n \<noteq> 215) then char_of (n + 32) else c)"

definition lower :: "string \<Rightarrow> string" where
  "lower s = map lower_char s"

function str_of_nat :: "nat \<Rightarrow> string" where
  "str_of_nat n =
     (if n < 10 then [char_of (48 + n)]
      else str_of_nat (n div 10) @ [char_of (48 + n mod 10)])"
  by pat_completeness auto
termination
  by (relation "measure id") auto

text \<open>The loop of \<open>extract_title\<close> over the first lines of \<open>main_text\<close>: it stops at
  the first heading line or short non-blank line; \<open>t\<close> is the title so far.\<close>
fun title_scan :: "string \<Rightarrow> string list \<Rightarrow> string" where
  "title_scan t [] = t"
| "title_scan t (line # ls) =
     (if startswith line ''#'' then strip (strip_hash line)
      else if strip line \<noteq> [] \<and> length (strip line) < 100 then strip line
      else title_scan t ls)"

definition extract_title :: "('page, 'table) Document \<Rightarrow> string" where
  "extract_title doc =
     (let t0 = ''Untitled Document'';
          t = (case doc_title doc of
                 Some dt \<Rightarrow>
                   if dt \<noteq> [] then dt
                   else (case doc_main_text doc of
                           None \<Rightarrow> t0
                         | Some mt \<Rightarrow> title_scan t0 (take 10 (split_on (CHR 0x0A) mt)))
               | None \<Rightarrow>
                   (case doc_main_text doc of
                      None \<Rightarrow> t0
                    | Some mt \<Rightarrow> title_scan t0 (take 10 (split_on (CHR 0x0A) mt))))
      in take 200 t)"

text \<open>\<open>get_docling_version()\<close> reads the installed library; its result is the parameter
  \<open>version\<close> of \<open>extract_metadata\<close>, \<open>None\<close> when the lookup fails.\<close>
definition get_docling_version :: "string option \<Rightarrow> string" where
  "get_docling_version version = (case version of None \<Rightarrow> ''unknown'' | Some v \<Rightarrow> v)"

definition extract_metadata :: "string option \<Rightarrow> ('page, 'table) Document \<Rightarrow> Args \<Rightarrow> Metadata" where
  "extract_metadata version doc args =
     (let pc = (case doc_pages doc of
                  Some ps \<Rightarrow> length ps
                | None \<Rightarrow> (case doc_private_pages doc of Some ps \<Rightarrow> length ps | None \<Rightarrow> 1));
          imgs = (case doc_pictures doc of Some ps \<Rightarrow> ps \<noteq> [] | None \<Rightarrow> False);
          tbls = (case doc_tables doc of Some ts \<Rightarrow> ts \<noteq> [] | None \<Rightarrow> False);
          markdown = doc_markdown doc;
          cd = (contains markdown fence \<or> contains markdown [CHR 0x60]);
          fm = (contains markdown ''$'' \<or> contains (lower markdown) ''equation'')
      in \<lparr>meta_title = extract_title doc, page_count = pc, has_images = imgs,
          has_tables = tbls, has_code = cd, has_formulas = fm,
          processing_info =
            \<lparr>ocr_enabled = \<not> no_ocr args, vlm_enabled = \<not> no_vlm args,
             code_enrichment_enabled = enable_code_enrichment args,
             formula_enrichment_enabled = enable_formula_enrichment args,
             docling_version = get_docling_version version,
             info_vlm_model = (if \<not> no_vlm args then Some (vlm_model args) else None)\<rparr>\<rparr>)"

definition describe_picture :: "nat \<times> Picture \<Rightarrow> ImageDescription" where
  "describe_picture ip =
     (case ip of (i, picture) \<Rightarrow>
        \<lparr>image_id = ''image_'' @ str_of_nat i,
         image_description =
           (case pic_description picture of
              Some d \<Rightarrow> d
            | None \<Rightarrow> (case pic_caption picture of
                         Some c \<Rightarrow> c
                       | None \<Rightarrow> ''Image detected in document'')),
         confidence = 8 / 10,
         extracted_text = pic_text picture\<rparr>)"

definition extract_image_descriptions :: "('page, 'table) Document \<Rightarrow> ImageDescription list" where
  "extract_image_descriptions doc =
     (case doc_pictures doc of
        None \<Rightarrow> []
      | Some pictures \<Rightarrow>
          foldl (\<lambda>descriptions ip. descriptions @ [describe_picture ip]) [] (enumerate 0 pictures))"

text \<open>The content that \<open>main\<close> assembles from a converted document; \<open>vlm_available\<close>
  says whether the optional components of the converter could be imported.\<close>
record Content =
  out_markdown :: string
  out_sections :: "Section list"
  out_metadata :: Metadata
  out_code_snippets :: "CodeSnippet list option"
  out_formulas :: "Formula list option"
  out_image_descriptions :: "ImageDescription list option"

definition build_content :: "bool \<Rightarrow> string option \<Rightarrow> ('page, 'table) Document \<Rightarrow> Args \<Rightarrow> Content" where
  "build_content vlm_available version doc args =
     (let markdown_content = doc_markdown doc
      in \<lparr>out_markdown = markdown_content,
          out_sections = process_sections markdown_content,
          out_metadata = extract_metadata version doc args,
          out_code_snippets =
            (if enable_code_enrichment args then Some (extract_code_snippets markdown_content) else None),
          out_formulas =
            (if enable_formula_enrichment args then Some (extract_formulas markdown_content) else None),
          out_image_descriptions =
            (if vlm_available \<and> \<not> no_vlm args \<and> doc_pictures doc \<noteq> None
             then Some (extract_image_descriptions doc) else None)\<rparr>)"

text \<open>The class-based processor: \<open>_extract_title_from_content\<close> and the title of
  \<open>process_pdf\<close>.\<close>
fun title_from_lines :: "string list \<Rightarrow> string" where
  "title_from_lines [] = ''Untitled Document''"
| "title_from_lines (l # ls) =
     (let line = strip l
      in if startswith line ''# '' then strip (drop 2 line)
         else if line \<noteq> [] \<and> \<not> startswith line ''#'' then
           take 100 line @ (if 100 < length line then ''...'' else '''')
         else title_from_lines ls)"

definition extract_title_from_content :: "string \<Rightarrow> string" where
  "extract_title_from_content markdown = title_from_lines (split_on (CHR 0x0A) markdown)"

definition process_pdf_title :: "('page, 'table) Document \<Rightarrow> string" where
  "process_pdf_title doc =
     (case doc_title doc of
        Some dt \<Rightarrow> if dt \<noteq> [] then dt else extract_title_from_content (doc_markdown doc)
      | None \<Rightarrow> extract_title_from_content (doc_markdown doc))"

section \<open>Vocabulary for the title property\<close>

text \<open>A line from which \<open>extract_title\<close> takes a title: a heading line, or a non-blank
  line whose stripped text is shorter than 100 characters; and the title it gives.\<close>
definition title_candidate :: "string \<Rightarrow> bool" where
  "title_candidate line \<longleftrightarrow> is_heading line \<or> (\<not> is_blank line \<and> length (strip line) < 100)"

definition title_of_line :: "string \<Rightarrow> string" where
  "title_of_line line = (if is_heading line then heading_title line else strip line)"

text \<open>
  The title as the claim words it: the explicit title; otherwise the text of a heading line
  among the first 10 lines of the raw text, which is the Markdown of the document;
  otherwise the first non-blank line shorter than 100 characters among them; otherwise the
  fallback; cut to 200 characters.
\<close>
definition claimed_scan :: "string \<Rightarrow> string" where
  "claimed_scan raw =
     (let ls = take 10 (lines_of raw)
      in case List.find is_heading ls of
           Some h \<Rightarrow> heading_title h
         | None \<Rightarrow>
             (case List.find (\<lambda>l. \<not> is_blank l \<and> length (strip l) < 100) ls of
                Some l \<Rightarrow> strip l
              | None \<Rightarrow> ''Untitled Document''))"

definition claimed_title :: "('page, 'table) Document \<Rightarrow> string" where
  "claimed_title doc =
     take 200
       (case doc_title doc of
          Some dt \<Rightarrow> if dt \<noteq> [] then dt else claimed_scan (doc_markdown doc)
        | None \<Rightarrow> claimed_scan (doc_markdown doc))"

section \<open>Vocabulary for the order indices\<close>

text \<open>
  The heading lines of the input in order, each with the lines that follow it up to the
  next heading line; the position of a block in this list is the zero-based ordinal of its
  heading line among the heading lines.
\<close>
fun heading_blocks :: "string list \<Rightarrow> (string \<times> string list) list" where
  "heading_blocks [] = []"
| "heading_blocks (l # ls) =
     (if is_heading l then (l, takeWhile (\<lambda>x. \<not> is_heading x) ls) # heading_blocks ls
      else heading_blocks ls)"

text \<open>A block has content when one of its lines is not blank. \<open>filled_headings\<close> are the
  heading lines with content, each with its ordinal, counted from \<open>n\<close>.\<close>
definition block_filled :: "nat \<times> string \<times> string list \<Rightarrow> bool" where
  "block_filled kb \<longleftrightarrow> \<not> list_all is_blank (snd (snd kb))"

definition filled_headings_from :: "nat \<Rightarrow> string list \<Rightarrow> (nat \<times> string) list" where
  "filled_headings_from n ls =
     map (\<lambda>kb. (fst kb, heading_title (fst (snd kb))))
       (filter block_filled (enumerate n (heading_blocks ls)))"

definition filled_headings :: "string \<Rightarrow> (nat \<times> string) list" where
  "filled_headings md = filled_headings_from 0 (lines_of md)"

text \<open>The order index and the title of a section.\<close>
definition index_and_title :: "Section \<Rightarrow> nat \<times> string" where
  "index_and_title s = (order_index s, title s)"

text \<open>A heading line of \<open>_create_sections\<close>, their number, and the lines before the
  first of them.\<close>
definition cs_is_heading :: "string \<Rightarrow> bool" where
  "cs_is_heading line \<longleftrightarrow> startswith (strip line) ''# '' \<or> startswith (strip line) ''## ''"

definition cs_heading_count :: "string \<Rightarrow> nat" where
  "cs_heading_count md = length (filter cs_is_heading (lines_of md))"

definition cs_leading_lines :: "string \<Rightarrow> string list" where
  "cs_leading_lines md = takeWhile (\<lambda>l. \<not> cs_is_heading l) (lines_of md)"

text \<open>The lines as \<open>_create_sections\<close> adds them to the content of a section.\<close>
definition with_newlines :: "string list \<Rightarrow> string" where
  "with_newlines ls = concat (map (\<lambda>l. l @ [CHR 0x0A]) ls)"

section \<open>Properties of the string primitives\<close>

lemma split_on_not_Nil [simp]: "split_on sep s \<noteq> []"
  by (induction s) (auto split: list.splits)

lemma concat_split_on: "concat (split_on sep s) = filter (\<lambda>c. c \<noteq> sep) s"
  by (induction s) (auto split: list.splits)

lemma split_on_subset: "l \<in> set (split_on sep s) \<Longrightarrow> set l \<subseteq> set s"
proof -
  assume "l \<in> set (split_on sep s)"
  then have "set l \<subseteq> set (concat (split_on sep s))" by auto
  then show ?thesis by (auto simp: concat_split_on)
qed

lemma strip_chars_all: "\<forall>c\<in>set s. P c \<Longrightarrow> strip_chars P s = []"
  by (auto simp: strip_chars_def lstrip_chars_def rstrip_chars_def dest: set_dropWhileD)

lemma strip_blank: "\<forall>c\<in>set s. isspace c \<Longrightarrow> strip s = []"
  by (simp add: strip_def strip_chars_all)

lemma blank_not_heading: "\<forall>c\<in>set l. isspace c \<Longrightarrow> \<not> startswith l ''#''"
  by (cases l) (auto simp: startswith_def isspace_def)

section \<open>Segmentation of blank input\<close>

lemma seg_step_blank: "\<forall>c\<in>set l. isspace c \<Longrightarrow> seg_step st l = st"
  by (simp add: seg_step_def blank_not_heading strip_blank)

lemma foldl_seg_step_blank:
  "\<forall>l\<in>set ls. \<forall>c\<in>set l. isspace c \<Longrightarrow> foldl seg_step st ls = st"
  by (induction ls arbitrary: st) (simp_all add: seg_step_blank)

text \<open>
  C9. If the input is empty or every character of it is whitespace, \<open>process_sections\<close>
  returns the empty list: no line is a heading, no line is kept as content, and the
  catch-all section is not created because the stripped input is empty.
\<close>
theorem process_sections_blank:
  assumes "\<forall>c\<in>set markdown_content. isspace c"
  shows "process_sections markdown_content = []"
proof -
  have "\<forall>l\<in>set (split_on (CHR 0x0A) markdown_content). \<forall>c\<in>set l. isspace c"
    using assms split_on_subset by blast
  then have "foldl seg_step seg_init (split_on (CHR 0x0A) markdown_content) = seg_init"
    by (rule foldl_seg_step_blank)
  moreover have "save_section seg_init = []"
    by (simp add: save_section_def seg_init_def)
  ultimately show ?thesis
    using assms by (simp add: process_sections_def strip_blank)
qed

theorem process_sections_blank_witness:
  "list_all isspace '' \<newline>  '' \<and> process_sections '' \<newline>  '' = []"
  using process_sections_blank [of "'' \<newline>  ''"] by (simp add: isspace_def)

section \<open>Reading time\<close>

lemma token_starts_Nil [simp]: "token_starts b [] = []"
  by (simp add: token_starts_def)

lemma length_token_starts_Cons:
  "length (token_starts b (c # cs)) =
     (if \<not> isspace c \<and> b then 1 else 0) + length (token_starts (isspace c) cs)"
proof -
  let ?P = "\<lambda>i. \<not> isspace ((c # cs) ! i) \<and> (if i = 0 then b else isspace ((c # cs) ! (i - 1)))"
  let ?Q = "\<lambda>i. \<not> isspace (cs ! i) \<and> (if i = 0 then isspace c else isspace (cs ! (i - 1)))"
  have "[0..<length (c # cs)] = 0 # map Suc [0..<length cs]"
    by (simp add: upt_conv_Cons map_Suc_upt del: upt_Suc)
  then have "length (filter ?P [0..<length (c # cs)]) =
      (if ?P 0 then 1 else 0) + length (filter (?P \<circ> Suc) [0..<length cs])"
    by (simp add: filter_map del: upt_Suc)
  moreover have "(?P \<circ> Suc) i = ?Q i" for i
    by (cases i) simp_all
  then have "filter (?P \<circ> Suc) [0..<length cs] = filter ?Q [0..<length cs]"
    by (intro filter_cong) auto
  ultimately show ?thesis
    by (simp add: token_starts_def)
qed

lemma length_split_ws_from:
  "length (split_ws_from cur s) =
     (if cur = [] then 0 else 1) + length (token_starts (cur = []) s)"
  by (induction s arbitrary: cur) (simp_all add: length_token_starts_Cons)

lemma length_split_ws: "length (split_ws s) = spec_word_count s"
  by (simp add: split_ws_def spec_word_count_def length_split_ws_from)

lemma frac_div_nat: "0 < d \<Longrightarrow> frac (real n / real d) = real (n mod d) / real d"
proof -
  assume d: "0 < d"
  have eq: "real n = real (n div d) * real d + real (n mod d)"
    by (metis div_mult_mod_eq of_nat_add of_nat_mult)
  have "frac (real n / real d) = real n / real d - real (n div d)"
    by (simp add: frac_def floor_divide_of_nat_eq)
  also have "\<dots> = real (n mod d) / real d"
    using d by (subst eq) (simp add: field_simps)
  finally show ?thesis .
qed

lemma half_less_nat: "0 < d \<Longrightarrow> (real r / real d < 1 / 2) = (2 * r < d)"
proof -
  assume "0 < d"
  then have "(real r / real d < 1 / 2) = (real (2 * r) < real d)" by (simp add: field_simps)
  then show ?thesis by (simp only: of_nat_less_iff)
qed

lemma half_greater_nat: "0 < d \<Longrightarrow> (1 / 2 < real r / real d) = (d < 2 * r)"
proof -
  assume "0 < d"
  then have "(1 / 2 < real r / real d) = (real d < real (2 * r))" by (simp add: field_simps)
  then show ?thesis by (simp only: of_nat_less_iff)
qed

lemma py_round_div_real:
  assumes "0 < d"
  shows "int (py_round_div n d) = round_half_even (real n / real d)"
  unfolding round_half_even_def frac_div_nat [OF assms] half_less_nat [OF assms]
    half_greater_nat [OF assms]
  by (simp add: py_round_div_def Let_def floor_divide_of_nat_eq)

lemma round_half_even_no_tie: "frac x \<noteq> 1 / 2 \<Longrightarrow> round_half_even x = round x"
proof -
  assume a: "frac x \<noteq> 1 / 2"
  have b: "of_int \<lfloor>x\<rfloor> + frac x = x" by (simp add: frac_def)
  have c: "0 \<le> frac x" "frac x < 1" by (simp_all add: frac_lt_1)
  show ?thesis
  proof (cases "frac x < 1 / 2")
    case True
    then have "\<lfloor>x + 1 / 2\<rfloor> = \<lfloor>x\<rfloor>" using b c by (intro floor_unique) linarith+
    with True show ?thesis by (simp add: round_half_even_def round_def)
  next
    case False
    with a have d: "1 / 2 < frac x" by simp
    have "\<lfloor>x + 1 / 2\<rfloor> = \<lfloor>x\<rfloor> + 1"
    proof (rule floor_unique)
      show "of_int (\<lfloor>x\<rfloor> + 1) \<le> x + 1 / 2"
        using b c d unfolding of_int_add of_int_1 by linarith
      show "x + 1 / 2 < of_int (\<lfloor>x\<rfloor> + 1) + 1"
        using b c d unfolding of_int_add of_int_1 by linarith
    qed
    with False d show ?thesis by (simp add: round_half_even_def round_def)
  qed
qed

lemma py_round_div_225: "int (py_round_div n 225) = round (real n / 225)"
proof -
  have "frac (real n / real 225) = real (n mod 225) / real 225"
    by (rule frac_div_nat) simp
  moreover have "real (n mod 225) / real 225 \<noteq> 1 / 2"
  proof
    assume "real (n mod 225) / real 225 = 1 / 2"
    then have "2 * real (n mod 225) = real 225" by (simp add: field_simps)
    then have "2 * (n mod 225) = 225" by (metis of_nat_eq_iff of_nat_mult of_nat_numeral)
    then have "even (225::nat)" by (metis dvd_triv_left)
    then show False by simp
  qed
  ultimately have "round_half_even (real n / real 225) = round (real n / real 225)"
    by (intro round_half_even_no_tie) simp
  then show ?thesis using py_round_div_real [of 225 n] by simp
qed

text \<open>
  C4. The reading-time estimate is \<open>max(1, round(word_count / WPM))\<close>, where
  \<open>word_count\<close> is the number of whitespace-delimited tokens: with 225 words per minute
  in \<open>estimate_reading_time\<close> (no quotient is a tie, so every rounding to nearest
  agrees) and with 200 words per minute and ties to even in the class-based
  \<open>_estimate_reading_time\<close>. The estimate is never 0 or negative, and a text of exactly
  one word gives 1.
\<close>
theorem reading_time_formula:
  "estimate_reading_time txt = max 1 (round (real (spec_word_count txt) / 225)) \<and>
   estimate_reading_time_cls txt = max 1 (round_half_even (real (spec_word_count txt) / 200)) \<and>
   0 < estimate_reading_time txt \<and> 0 < estimate_reading_time_cls txt \<and>
   (spec_word_count txt = 1 \<longrightarrow>
      estimate_reading_time txt = 1 \<and> estimate_reading_time_cls txt = 1)"
proof -
  have a: "estimate_reading_time txt = max 1 (round (real (spec_word_count txt) / 225))"
    by (simp add: estimate_reading_time_def length_split_ws py_round_div_225)
  have b: "estimate_reading_time_cls txt = max 1 (round_half_even (real (spec_word_count txt) / 200))"
    using py_round_div_real [of 200 "spec_word_count txt"]
    by (simp add: estimate_reading_time_cls_def length_split_ws)
  have c: "0 < estimate_reading_time txt" "0 < estimate_reading_time_cls txt"
    by (simp_all add: estimate_reading_time_def estimate_reading_time_cls_def)
  have d: "estimate_reading_time txt = 1 \<and> estimate_reading_time_cls txt = 1"
    if "spec_word_count txt = 1"
    using that by (simp add: estimate_reading_time_def estimate_reading_time_cls_def length_split_ws py_round_div_def)
  from a b c d show ?thesis by blast
qed

theorem reading_time_formula_witness:
  "spec_word_count ''hello'' = 1 \<and> estimate_reading_time ''hello'' = 1 \<and> estimate_reading_time_cls ''hello'' = 1"
  using reading_time_formula [of "''hello''"]
  by (simp add: spec_word_count_def token_starts_def isspace_def)

section \<open>Order indices of the sections\<close>

lemma seg_step_heading:
  "is_heading l \<Longrightarrow> seg_step st l =
     \<lparr>st_sections = save_section st,
      st_current = Some \<lparr>title = strip (strip_hash l), content = [],
                         order_index = st_order_index st, estimated_minutes = 0\<rparr>,
      st_content = [], st_order_index = st_order_index st + 1\<rparr>"
  by (simp add: seg_step_def is_heading_def)

lemma seg_step_text:
  "\<not> is_heading l \<Longrightarrow> \<not> is_blank l \<Longrightarrow> seg_step st l = st\<lparr>st_content := st_content st @ [l]\<rparr>"
  by (simp add: seg_step_def is_heading_def is_blank_def)

lemma seg_step_skip: "\<not> is_heading l \<Longrightarrow> is_blank l \<Longrightarrow> seg_step st l = st"
  by (simp add: seg_step_def is_heading_def is_blank_def)

lemma order_index_save_section:
  "map order_index (save_section st) =
     map order_index (st_sections st) @
       (case st_current st of None \<Rightarrow> []
        | Some cur \<Rightarrow> if st_content st \<noteq> [] then [order_index cur] else [])"
  by (simp add: save_section_def Let_def split: option.splits)

lemma idx_inv_init: "idx_inv seg_init"
  by (simp add: idx_inv_def seg_init_def)

lemma idx_inv_step: "idx_inv st \<Longrightarrow> idx_inv (seg_step st l)"
proof -
  assume a: "idx_inv st"
  consider "is_heading l" | "\<not> is_heading l" "\<not> is_blank l" | "\<not> is_heading l" "is_blank l"
    by blast
  then show ?thesis
  proof cases
    case 1
    from a show ?thesis
      unfolding seg_step_heading [OF 1] idx_inv_def
      by (auto simp: order_index_save_section sorted_wrt_append split: option.splits)
  next
    case 2
    from a show ?thesis by (auto simp: seg_step_text [OF 2] idx_inv_def split: option.splits)
  next
    case 3
    from a show ?thesis by (simp add: seg_step_skip [OF 3])
  qed
qed

lemma idx_inv_foldl: "idx_inv st \<Longrightarrow> idx_inv (foldl seg_step st ls)"
  by (induction ls arbitrary: st) (simp_all add: idx_inv_step)

lemma st_order_index_step:
  "st_order_index (seg_step st l) = st_order_index st + (if is_heading l then 1 else 0)"
  by (simp add: seg_step_def is_heading_def)

lemma st_order_index_foldl:
  "st_order_index (foldl seg_step st ls) = st_order_index st + length (filter is_heading ls)"
  by (induction ls arbitrary: st) (simp_all add: st_order_index_step)

lemma idx_inv_save:
  assumes "idx_inv st"
  shows "sorted_wrt (<) (map order_index (save_section st)) \<and>
         (\<forall>i\<in>set (map order_index (save_section st)). i < st_order_index st)"
  using assms unfolding idx_inv_def order_index_save_section
  by (auto simp: sorted_wrt_append split: option.splits)

lemma filled_foldl:
  "filled_inv st \<Longrightarrow> headings_filled (pending st) ls \<Longrightarrow>
   map order_index (save_section (foldl seg_step st ls)) =
     [0..<st_order_index st + length (filter is_heading ls)]"
proof (induction ls arbitrary: st)
  case Nil
  then show ?case
    by (auto simp: filled_inv_def pending_def order_index_save_section split: option.splits)
next
  case (Cons l ls)
  consider "is_heading l" | "\<not> is_heading l" "\<not> is_blank l" | "\<not> is_heading l" "is_blank l"
    by blast
  then show ?case
  proof cases
    case 1
    let ?st = "seg_step st l"
    from Cons.prems 1 have np: "\<not> pending st" and hf: "headings_filled True ls" by simp_all
    have p: "pending ?st" by (simp add: seg_step_heading [OF 1] pending_def)
    have "map order_index (save_section st) = [0..<st_order_index st]"
      using Cons.prems(1) np
      by (auto simp: filled_inv_def pending_def order_index_save_section split: option.splits)
    then have "filled_inv ?st"
      by (simp add: seg_step_heading [OF 1] filled_inv_def)
    from Cons.IH [OF this] hf p 1 show ?thesis
      by (simp add: st_order_index_step)
  next
    case 2
    let ?st = "seg_step st l"
    have p: "\<not> pending ?st" by (simp add: seg_step_text [OF 2] pending_def)
    have "filled_inv ?st" using Cons.prems(1)
      by (auto simp: seg_step_text [OF 2] filled_inv_def split: option.splits)
    from Cons.IH [OF this] Cons.prems(2) p 2 show ?thesis
      by (simp add: st_order_index_step)
  next
    case 3
    from Cons.IH [of st] Cons.prems 3 show ?thesis
      by (simp add: seg_step_skip [OF 3])
  qed
qed

lemma title_save_section:
  "map title (save_section st) =
     map title (st_sections st) @
       (case st_current st of None \<Rightarrow> []
        | Some cur \<Rightarrow> if st_content st \<noteq> [] then [title cur] else [])"
  by (simp add: save_section_def Let_def split: option.splits)

lemma filled_titles:
  "headings_filled (pending st) ls \<Longrightarrow>
   map title (save_section (foldl seg_step st ls)) =
     map title (st_sections st) @
     (case st_current st of None \<Rightarrow> [] | Some cur \<Rightarrow> [title cur]) @
     map heading_title (filter is_heading ls)"
proof (induction ls arbitrary: st)
  case Nil
  then show ?case
    by (auto simp: pending_def title_save_section split: option.splits)
next
  case (Cons l ls)
  consider "is_heading l" | "\<not> is_heading l" "\<not> is_blank l" | "\<not> is_heading l" "is_blank l"
    by blast
  then show ?case
  proof cases
    case 1
    let ?st = "seg_step st l"
    from Cons.prems 1 have np: "\<not> pending st" and hf: "headings_filled True ls" by simp_all
    have p: "pending ?st" by (simp add: seg_step_heading [OF 1] pending_def)
    have "map title (save_section st) =
        map title (st_sections st) @ (case st_current st of None \<Rightarrow> [] | Some cur \<Rightarrow> [title cur])"
      using np by (auto simp: pending_def title_save_section split: option.splits)
    with Cons.IH [of ?st] hf p 1 show ?thesis
      by (simp add: seg_step_heading [OF 1] heading_title_def)
  next
    case 2
    let ?st = "seg_step st l"
    have p: "\<not> pending ?st" by (simp add: seg_step_text [OF 2] pending_def)
    from Cons.IH [of ?st] Cons.prems p 2 show ?thesis
      by (simp add: seg_step_text [OF 2])
  next
    case 3
    from Cons.IH [of st] Cons.prems 3 show ?thesis
      by (simp add: seg_step_skip [OF 3])
  qed
qed

lemma cs_inv_init: "cs_inv cs_init"
  by (simp add: cs_inv_def cs_init_def)

lemma cs_inv_save:
  "cs_inv st \<Longrightarrow>
   sorted_wrt (<) (map order_index (cs_save st)) \<and>
   list_all (\<lambda>x. order_index x < Suc (cs_index st)) (cs_save st)"
  by (auto simp: cs_inv_def cs_save_def sorted_wrt_append list_all_iff)

lemma cs_inv_step: "cs_inv st \<Longrightarrow> cs_inv (cs_step st l)"
proof -
  assume a: "cs_inv st"
  show ?thesis
  proof (cases "startswith (strip l) ''# '' \<or> startswith (strip l) ''## ''")
    case True
    with cs_inv_save [OF a] show ?thesis
      by (simp add: cs_step_def cs_inv_def)
  next
    case False
    with a show ?thesis
      by (auto simp: cs_step_def cs_inv_def)
  qed
qed

lemma cs_inv_foldl: "cs_inv st \<Longrightarrow> cs_inv (foldl cs_step st ls)"
  by (induction ls arbitrary: st) (simp_all add: cs_inv_step)

section \<open>Section contents and the input text\<close>

lemma nonspace_append [simp]: "nonspace (a @ b) = nonspace a @ nonspace b"
  by (simp add: nonspace_def)

lemma nonspace_Nil [simp]: "nonspace [] = []"
  by (simp add: nonspace_def)

lemma filter_dropWhile_neg: "filter (\<lambda>c. \<not> P c) (dropWhile P xs) = filter (\<lambda>c. \<not> P c) xs"
  by (induction xs) simp_all

lemma nonspace_strip: "nonspace (strip s) = nonspace s"
proof -
  have "filter (\<lambda>c. \<not> isspace c) (rev (dropWhile isspace (rev s))) = filter (\<lambda>c. \<not> isspace c) s"
    by (simp add: filter_dropWhile_neg flip: rev_filter)
  then show ?thesis
    by (simp add: nonspace_def strip_def strip_chars_def lstrip_chars_def rstrip_chars_def
        filter_dropWhile_neg)
qed

lemma nonspace_join_newline: "nonspace (join [CHR 0x0A] xs) = nonspace (concat xs)"
proof (induction "[CHR 0x0A]" xs rule: join.induct)
  case (3 x y ys)
  have "nonspace ([CHR 0x0A] @ join [CHR 0x0A] (y # ys)) = nonspace (join [CHR 0x0A] (y # ys))"
    unfolding nonspace_append by (simp add: nonspace_def isspace_def)
  with 3 show ?case by (simp del: append.simps)
qed simp_all

lemma strip_chars_Nil_iff: "strip_chars P s = [] \<longleftrightarrow> (\<forall>c\<in>set s. P c)"
proof
  assume a: "strip_chars P s = []"
  then have "\<forall>c\<in>set (dropWhile P (rev s)). P c"
    by (simp add: strip_chars_def lstrip_chars_def rstrip_chars_def dropWhile_eq_Nil_conv)
  then have "dropWhile P (rev s) = []"
    by (cases "dropWhile P (rev s)") (use hd_dropWhile [of P "rev s"] in auto)
  then show "\<forall>c\<in>set s. P c" by (simp add: dropWhile_eq_Nil_conv)
qed (rule strip_chars_all)

lemma blank_iff: "is_blank l \<longleftrightarrow> (\<forall>c\<in>set l. isspace c)"
  by (simp add: is_blank_def strip_def strip_chars_Nil_iff)

lemma nonspace_Nil_iff: "nonspace s = [] \<longleftrightarrow> (\<forall>c\<in>set s. isspace c)"
  by (auto simp: nonspace_def filter_empty_conv)

lemma nonspace_blank: "is_blank l \<Longrightarrow> nonspace l = []"
  by (simp add: blank_iff nonspace_Nil_iff)

lemma nonspace_concat_blank: "list_all is_blank ls \<Longrightarrow> nonspace (concat ls) = []"
  by (induction ls) (simp_all add: nonspace_blank)

lemma content_save_section:
  "nonspace (concat (map content (save_section st))) =
     nonspace (concat (map content (st_sections st))) @
       (case st_current st of None \<Rightarrow> [] | Some cur \<Rightarrow> nonspace (concat (st_content st)))"
  by (simp add: save_section_def Let_def nonspace_strip nonspace_join_newline split: option.splits)

lemma content_foldl:
  "nonspace (concat (map content (save_section (foldl seg_step st ls)))) =
     nonspace (concat (map content (st_sections st))) @
       (if st_current st = None
        then nonspace (concat (filter (\<lambda>l. \<not> is_heading l) (dropWhile (\<lambda>l. \<not> is_heading l) ls)))
        else nonspace (concat (st_content st)) @
             nonspace (concat (filter (\<lambda>l. \<not> is_heading l) ls)))"
proof (induction ls arbitrary: st)
  case Nil
  show ?case by (simp add: content_save_section split: option.splits)
next
  case (Cons l ls)
  consider "is_heading l" | "\<not> is_heading l" "\<not> is_blank l" | "\<not> is_heading l" "is_blank l"
    by blast
  then show ?case
  proof cases
    case 1
    show ?thesis
      unfolding foldl_Cons Cons.IH
      using 1 by (simp add: seg_step_heading [OF 1] content_save_section split: option.splits)
  next
    case 2
    show ?thesis
      unfolding foldl_Cons Cons.IH
      using 2 by (simp add: seg_step_text [OF 2])
  next
    case 3
    show ?thesis
      unfolding foldl_Cons Cons.IH
      using 3 by (simp add: seg_step_skip [OF 3] nonspace_blank)
  qed
qed

lemma save_section_Nil_iff:
  "save_section (foldl seg_step st ls) \<noteq> [] \<longleftrightarrow>
     st_sections st \<noteq> [] \<or> (st_current st \<noteq> None \<and> st_content st \<noteq> []) \<or>
     some_heading_filled (st_current st \<noteq> None) ls"
proof (induction ls arbitrary: st)
  case Nil
  show ?case by (simp add: save_section_def Let_def split: option.splits)
next
  case (Cons l ls)
  have s: "save_section st \<noteq> [] \<longleftrightarrow>
      st_sections st \<noteq> [] \<or> (st_current st \<noteq> None \<and> st_content st \<noteq> [])"
    by (simp add: save_section_def Let_def split: option.splits)
  consider "is_heading l" | "\<not> is_heading l" "\<not> is_blank l" | "\<not> is_heading l" "is_blank l"
    by blast
  then show ?case
  proof cases
    case 1
    show ?thesis
      using 1 s by (simp add: Cons.IH seg_step_heading [OF 1])
  next
    case 2
    show ?thesis
      using 2 by (auto simp: Cons.IH seg_step_text [OF 2])
  next
    case 3
    show ?thesis
      using 3 by (simp add: Cons.IH seg_step_skip [OF 3])
  qed
qed

lemma nonspace_lines: "nonspace (concat (lines_of md)) = nonspace md"
proof -
  have "nonspace (filter (\<lambda>c. c \<noteq> CHR 0x0A) md) = nonspace md"
    unfolding nonspace_def filter_filter
    by (rule filter_cong) (auto simp: isspace_def)
  then show ?thesis
    by (simp only: lines_of_def concat_split_on)
qed

lemma heading_nonblank_input:
  assumes "0 < heading_count md"
  shows "strip md \<noteq> []"
proof -
  from assms obtain l where l: "l \<in> set (lines_of md)" "is_heading l"
    by (auto simp: heading_count_def filter_empty_conv)
  from l(2) have "CHR ''#'' \<in> set l"
    by (cases l) (auto simp: is_heading_def startswith_def)
  with l(1) have "CHR ''#'' \<in> set md"
    using split_on_subset [of l "CHR 0x0A" md] by (auto simp: lines_of_def)
  moreover have "\<not> isspace (CHR ''#'')" by (simp add: isspace_def)
  ultimately show ?thesis
    unfolding strip_def strip_chars_Nil_iff by blast
qed

lemma no_heading_not_filled:
  "\<forall>l\<in>set ls. \<not> is_heading l \<Longrightarrow> \<not> some_heading_filled False ls"
  by (induction ls) simp_all

lemma process_sections_cases:
  "process_sections md =
     (if save_section (foldl seg_step seg_init (lines_of md)) = [] \<and> strip md \<noteq> []
      then [\<lparr>title = ''Content'', content = strip md, order_index = 0,
              estimated_minutes = estimate_reading_time md\<rparr>]
      else save_section (foldl seg_step seg_init (lines_of md)))"
  by (simp add: process_sections_def lines_of_def Let_def)

text \<open>
  C3 (as amended). Two texts are compared modulo whitespace by \<open>nonspace\<close>; the body of
  the input is its non-heading lines. If the input has no heading line, or if only blank
  lines precede its first heading line and some heading line has content, then the contents
  of the sections of \<open>process_sections\<close>, concatenated in order, are the body modulo
  whitespace. If the input has heading lines and none of them has content, the only
  section is the catch-all one, whose content is the whole stripped input, heading lines
  included.
\<close>
theorem section_contents_roundtrip:
  "(heading_count md = 0 \<or>
      list_all is_blank (leading_lines md) \<and> some_heading_filled False (lines_of md) \<longrightarrow>
    nonspace (concat (map content (process_sections md))) = nonspace (concat (body_lines md))) \<and>
   (0 < heading_count md \<and> \<not> some_heading_filled False (lines_of md) \<longrightarrow>
    map content (process_sections md) = [strip md])"
proof -
  let ?secs = "save_section (foldl seg_step seg_init (lines_of md))"
  let ?nh = "\<lambda>l. \<not> is_heading l"
  have ne: "?secs \<noteq> [] \<longleftrightarrow> some_heading_filled False (lines_of md)"
    by (simp add: save_section_Nil_iff seg_init_def)
  have ct: "nonspace (concat (map content ?secs)) =
      nonspace (concat (filter ?nh (dropWhile ?nh (lines_of md))))"
    by (simp add: content_foldl seg_init_def)
  have a: "nonspace (concat (map content (process_sections md))) = nonspace (concat (body_lines md))"
    if "heading_count md = 0"
  proof -
    from that have nh: "\<forall>l\<in>set (lines_of md). \<not> is_heading l"
      by (simp add: heading_count_def filter_empty_conv)
    then have b: "nonspace (concat (body_lines md)) = nonspace md"
      by (simp add: body_lines_def nonspace_lines)
    from nh ne have e: "?secs = []"
      using no_heading_not_filled by blast
    show ?thesis
    proof (cases "strip md = []")
      case True
      then have "nonspace md = []"
        by (simp add: strip_def strip_chars_Nil_iff nonspace_Nil_iff)
      with True e b show ?thesis by (simp add: process_sections_cases)
    next
      case False
      with e b show ?thesis by (simp add: process_sections_cases nonspace_strip)
    qed
  qed
  have b: "nonspace (concat (map content (process_sections md))) = nonspace (concat (body_lines md))"
    if h: "list_all is_blank (leading_lines md)" "some_heading_filled False (lines_of md)"
  proof -
    from h(2) ne have p: "process_sections md = ?secs"
      by (simp add: process_sections_cases)
    have "body_lines md =
        filter ?nh (takeWhile ?nh (lines_of md)) @ filter ?nh (dropWhile ?nh (lines_of md))"
      unfolding body_lines_def by (simp flip: filter_append)
    also have "filter ?nh (takeWhile ?nh (lines_of md)) = leading_lines md"
      using set_takeWhileD [of _ ?nh "lines_of md"]
      by (auto simp: leading_lines_def filter_id_conv)
    finally have "nonspace (concat (body_lines md)) =
        nonspace (concat (filter ?nh (dropWhile ?nh (lines_of md))))"
      using h(1) by (simp add: nonspace_concat_blank)
    with p ct show ?thesis by simp
  qed
  have c: "map content (process_sections md) = [strip md]"
    if h: "0 < heading_count md" "\<not> some_heading_filled False (lines_of md)"
    using h(2) ne heading_nonblank_input [OF h(1)] by (simp add: process_sections_cases)
  from a b c show ?thesis by blast
qed

theorem section_contents_roundtrip_witness:
  "list_all is_blank (leading_lines ''\<newline># A\<newline>x y\<newline>\<newline>## B\<newline>z'') \<and>
   some_heading_filled False (lines_of ''\<newline># A\<newline>x y\<newline>\<newline>## B\<newline>z'') \<and>
   nonspace (concat (map content (process_sections ''\<newline># A\<newline>x y\<newline>\<newline>## B\<newline>z''))) = ''xyz'' \<and>
   0 < heading_count ''# A'' \<and> \<not> some_heading_filled False (lines_of ''# A'') \<and>
   map content (process_sections ''# A'') = [''# A'']"
proof -
  let ?md = "''\<newline># A\<newline>x y\<newline>\<newline>## B\<newline>z''"
  have h: "list_all is_blank (leading_lines ?md)" "some_heading_filled False (lines_of ?md)"
    "nonspace (concat (body_lines ?md)) = ''xyz''"
    "0 < heading_count ''# A''" "\<not> some_heading_filled False (lines_of ''# A'')"
    "strip ''# A'' = ''# A''"
    by code_simp+
  from section_contents_roundtrip [of ?md] section_contents_roundtrip [of "''# A''"] h
  show ?thesis by simp
qed

theorem section_contents_roundtrip_counterexample:
  "nonspace (concat (map content (process_sections ''# A''))) \<noteq>
     nonspace (concat (body_lines ''# A'')) \<and>
   nonspace (concat (map content (process_sections ''# A\<newline>x''))) \<noteq> nonspace ''# A\<newline>x''"
  by code_simp

section \<open>Text before the first heading\<close>

lemma cs_content_save:
  "nonspace (concat (map content (cs_save st))) =
     nonspace (concat (map content (cs_sections st))) @ nonspace (content (cs_current st))"
proof (cases "strip (content (cs_current st)) = []")
  case True
  then have "nonspace (content (cs_current st)) = []"
    by (simp add: strip_def strip_chars_Nil_iff nonspace_Nil_iff)
  with True show ?thesis by (simp add: cs_save_def)
next
  case False
  then show ?thesis by (simp add: cs_save_def)
qed

lemma cs_content_foldl:
  "nonspace (concat (map content (cs_save (foldl cs_step st ls)))) =
     nonspace (concat (map content (cs_sections st))) @ nonspace (content (cs_current st)) @
     nonspace (concat ls)"
proof (induction ls arbitrary: st)
  case Nil
  show ?case by (simp add: cs_content_save)
next
  case (Cons l ls)
  have n: "nonspace [CHR 0x0A] = []" by (simp add: nonspace_def isspace_def)
  show ?case
    unfolding foldl_Cons Cons.IH
    by (simp add: cs_step_def Let_def cs_content_save n)
qed

text \<open>The class-based \<open>_create_sections\<close> keeps every non-whitespace character of its
  input, the text before the first heading included.\<close>
lemma create_sections_keeps_text:
  "nonspace (concat (map content (create_sections md))) = nonspace md"
  using nonspace_lines [of md]
  by (simp add: create_sections_def Let_def cs_content_foldl cs_init_def lines_of_def)

text \<open>
  C2. The claim is that text before the first heading line is never lost. On the input
  \<open>intro / # A / body\<close> the function \<open>process_sections\<close> returns the single section
  \<open>A\<close> with content \<open>body\<close>: the line \<open>intro\<close> is collected in \<open>section_content\<close> and
  discarded at the first heading, because no current section exists yet. The class-based
  \<open>_create_sections\<close> keeps it in a section titled \<open>Introduction\<close>.
\<close>
theorem process_sections_drops_leading_text:
  "process_sections ''intro\<newline># A\<newline>body'' =
     [\<lparr>title = ''A'', content = ''body'', order_index = 0, estimated_minutes = 1\<rparr>] \<and>
   create_sections ''intro\<newline># A\<newline>body'' =
     [\<lparr>title = ''Introduction'', content = ''intro\<newline>'', order_index = 0, estimated_minutes = 1\<rparr>,
      \<lparr>title = ''A'', content = ''# A\<newline>body\<newline>'', order_index = 1, estimated_minutes = 1\<rparr>]"
  by code_simp

section \<open>Properties of the search\<close>

lemma finditer_sound:
  "(a, b, g) \<in> set (finditer m s pos) \<Longrightarrow>
   pos \<le> a \<and> a \<le> length s \<and> (\<exists>n. m (drop a s) = Some (g, n) \<and> b = a + n)"
proof (induction m s pos rule: finditer.induct)
  case (1 m s pos)
  show ?case
  proof (cases "length s < pos")
    case True
    with "1.prems" show ?thesis by simp
  next
    case False
    note le = this
    show ?thesis
    proof (cases "m (drop pos s)")
      case None
      with le "1.prems" have "(a, b, g) \<in> set (finditer m s (Suc pos))" by simp
      from "1.IH"(1) [OF le None this] show ?thesis by auto
    next
      case (Some r)
      obtain g' n where r: "r = (g', n)" by (cases r)
      let ?next = "if n = 0 then Suc pos else pos + n"
      from le Some r "1.prems"
      consider "(a, b, g) = (pos, pos + n, g')" | "(a, b, g) \<in> set (finditer m s ?next)"
        by (auto split: if_splits)
      then show ?thesis
      proof cases
        case 1
        with le Some r show ?thesis by auto
      next
        case 2
        from "1.IH"(2) [OF le Some r [symmetric] 2] show ?thesis
          by (auto split: if_splits)
      qed
    qed
  qed
qed

lemma finditer_in_text_order: "in_text_order (finditer m s pos)"
proof (induction m s pos rule: finditer.induct)
  case (1 m s pos)
  show ?case
  proof (cases "length s < pos")
    case True
    then show ?thesis by (simp add: in_text_order_def)
  next
    case False
    note le = this
    show ?thesis
    proof (cases "m (drop pos s)")
      case None
      with le "1.IH"(1) [OF le None] show ?thesis by simp
    next
      case (Some r)
      obtain g' n where r: "r = (g', n)" by (cases r)
      let ?next = "if n = 0 then Suc pos else pos + n"
      have ih: "in_text_order (finditer m s ?next)"
        using "1.IH"(2) [OF le Some r [symmetric]] by simp
      have "pos < fst y \<and> pos + n \<le> fst y" if "y \<in> set (finditer m s ?next)" for y
      proof -
        obtain a b g where y: "y = (a, b, g)" by (cases y)
        with that finditer_sound [of a b g m s ?next] show ?thesis
          by (auto split: if_splits)
      qed
      with ih have "in_text_order ((pos, pos + n, g') # finditer m s ?next)"
        by (auto simp: in_text_order_def)
      moreover have "finditer m s pos = (pos, pos + n, g') # finditer m s ?next"
        using le Some r by (subst finditer.simps) simp
      ultimately show ?thesis by simp
    qed
  qed
qed

lemma lazy_until_sound:
  "lazy_until cls s = Some k \<Longrightarrow> k + length cls \<le> length s \<and> take (length cls) (drop k s) = cls"
proof (induction s arbitrary: k)
  case Nil
  then show ?case by (simp split: if_splits)
next
  case (Cons c cs)
  show ?case
  proof (cases "startswith (c # cs) cls")
    case True
    with Cons.prems have k: "k = 0" by simp
    from True have t: "take (length cls) (c # cs) = cls" by (simp add: startswith_def)
    have "length (take (length cls) (c # cs)) \<le> length (c # cs)"
      by (simp del: length_Cons)
    then have "length cls \<le> length (c # cs)"
      unfolding t .
    with k t show ?thesis by simp
  next
    case False
    with Cons.prems obtain j where j: "lazy_until cls cs = Some j" "k = Suc j" by auto
    from Cons.IH [OF j(1)] j(2) show ?thesis by simp
  qed
qed

section \<open>Code snippets\<close>

lemma foldl_append_step:
  "(\<And>acc x. f acc x = acc @ g x) \<Longrightarrow> foldl f acc xs = acc @ concat (map g xs)"
  by (induction xs arbitrary: acc) simp_all

lemma count_newlines_take_mono: "a \<le> b \<Longrightarrow> count_newlines (take a s) \<le> count_newlines (take b s)"
proof -
  assume "a \<le> b"
  then have "take b s = take a s @ take (b - a) (drop a s)"
    by (metis le_add_diff_inverse take_add)
  then show ?thesis by (simp add: count_newlines_def)
qed

lemma take_prefix_len: "length xs = n \<Longrightarrow> take n (xs @ ys) = xs"
  by simp

lemma match_code_block_sound:
  assumes "match_code_block s = Some ((tag, body), n)"
  shows "n \<le> length s \<and> tag \<noteq> Some [] \<and>
         list_all is_word_char (case tag of None \<Rightarrow> [] | Some t \<Rightarrow> t) \<and>
         take n s = fence @ (case tag of None \<Rightarrow> [] | Some t \<Rightarrow> t) @ [CHR 0x0A] @ body @ [CHR 0x0A] @ fence"
proof -
  define r where "r = drop 3 s"
  define t where "t = takeWhile is_word_char r"
  define r' where "r' = drop (length t) r"
  define u where "u = drop 1 r'"
  from assms have f: "startswith s fence"
    by (simp add: match_code_block_def split: if_splits)
  from assms f have nl: "startswith r' [CHR 0x0A]"
    by (simp add: match_code_block_def Let_def r_def t_def r'_def split: if_splits)
  from assms f nl obtain k where k: "lazy_until (CHR 0x0A # fence) u = Some k"
    and tag: "tag = (if t = [] then None else Some t)" and body: "body = take k u"
    and n: "n = 3 + length t + 1 + k + 4"
    by (auto simp: match_code_block_def Let_def r_def t_def r'_def u_def split: if_splits option.splits)
  have lf: "length fence = 3" by (simp add: fence_def)
  have "take 3 s @ drop 3 s = s" by simp
  with f have s: "s = fence @ r"
    by (simp add: startswith_def lf r_def)
  have r: "r = t @ r'"
    unfolding t_def r'_def by (simp flip: dropWhile_eq_drop)
  have "take 1 r' @ drop 1 r' = r'" by simp
  with nl have r': "r' = CHR 0x0A # u"
    by (simp add: startswith_def u_def)
  from lazy_until_sound [OF k] have len: "k + 4 \<le> length u"
    and cl: "take 4 (drop k u) = CHR 0x0A # fence"
    by (simp_all add: lf)
  have "take k u @ take 4 (drop k u) @ drop 4 (drop k u) = u"
    by (simp only: append_take_drop_id)
  then have u: "u = body @ (CHR 0x0A # fence) @ drop 4 (drop k u)"
    unfolding cl body by simp
  have w: "list_all is_word_char t"
    unfolding t_def list_all_iff by (auto dest: set_takeWhileD)
  let ?blk = "fence @ t @ [CHR 0x0A] @ body @ [CHR 0x0A] @ fence"
  have full: "s = ?blk @ drop 4 (drop k u)"
    by (subst s, subst r, subst r', subst u) simp
  have lb: "length body = k"
    using len by (simp add: body)
  have ln: "length ?blk = n"
    by (simp add: n lf lb)
  have tk: "take n s = ?blk"
    by (subst full) (rule take_prefix_len [OF ln])
  have "length (?blk @ drop 4 (drop k u)) = n + length (drop 4 (drop k u))"
    unfolding length_append [of ?blk] ln ..
  then have "n \<le> length s"
    unfolding full [symmetric] by simp
  with tk w tag show ?thesis by auto
qed

lemma snippet_step_append:
  "snippet_step src acc mt =
     acc @ [snippet_of_match src
              (case mt of (a, b, tag, body) \<Rightarrow> (a, b, if tag = Some [] then None else tag, body))]"
  by (cases mt) (auto simp: snippet_step_def snippet_of_match_def Let_def split: option.splits)

lemma code_matches_fenced:
  "list_all (fenced_block_at src) (finditer match_code_block src 0)"
  unfolding list_all_iff
proof
  fix mt assume mt: "mt \<in> set (finditer match_code_block src 0)"
  obtain a b tag body where e: "mt = (a, b, tag, body)" by (cases mt)
  from finditer_sound [of a b "(tag, body)" match_code_block src 0] mt e
  obtain n where a: "a \<le> length src"
    and m: "match_code_block (drop a src) = Some ((tag, body), n)" and b: "b = a + n"
    by auto
  from match_code_block_sound [OF m] a b show "fenced_block_at src mt"
    by (auto simp: fenced_block_at_def e)
qed

lemma extract_code_snippets_map:
  "extract_code_snippets src = map (snippet_of_match src) (finditer match_code_block src 0)"
proof -
  let ?ms = "finditer match_code_block src 0"
  let ?fix = "\<lambda>mt. case mt of (a, b, tag, body) \<Rightarrow> (a, b, if tag = Some [] then None else tag, body)"
  have "extract_code_snippets src = [] @ concat (map (\<lambda>mt. [snippet_of_match src (?fix mt)]) ?ms)"
    unfolding extract_code_snippets_def
    by (rule foldl_append_step) (rule snippet_step_append)
  also have "\<dots> = map (\<lambda>mt. snippet_of_match src (?fix mt)) ?ms"
    by (simp add: concat_map_singleton)
  also have "\<dots> = map (snippet_of_match src) ?ms"
  proof (rule map_cong [OF refl])
    fix mt assume "mt \<in> set ?ms"
    with code_matches_fenced [of src] have "fenced_block_at src mt"
      by (simp add: list_all_iff)
    then show "snippet_of_match src (?fix mt) = snippet_of_match src mt"
      by (cases mt) (simp add: fenced_block_at_def)
  qed
  finally show ?thesis .
qed

text \<open>
  C5. The snippets of \<open>extract_code_snippets\<close> are those of the matches of the code-block
  pattern, one for each match and in the order of the matches: the language is the tag of
  the fence, or \<open>unknown\<close> when there is none, the code is the stripped body, and
  \<open>line_start\<close> and \<open>line_end\<close> are one more than the number of newlines before the start
  and before the end of the match. Every match is a fenced code block of the text, the
  matches are in order of position, every snippet has \<open>1 \<le> line_start \<le> line_end\<close>, and the
  snippets are in order of position.
\<close>
theorem code_snippets_contract:
  "extract_code_snippets src = map (snippet_of_match src) (finditer match_code_block src 0) \<and>
   list_all (fenced_block_at src) (finditer match_code_block src 0) \<and>
   in_text_order (finditer match_code_block src 0) \<and>
   list_all (\<lambda>s. 1 \<le> line_start s \<and> line_start s \<le> line_end s) (extract_code_snippets src) \<and>
   sorted (map line_start (extract_code_snippets src))"
proof -
  let ?ms = "finditer match_code_block src 0"
  have le: "list_all (\<lambda>s. 1 \<le> line_start s \<and> line_start s \<le> line_end s) (extract_code_snippets src)"
    unfolding extract_code_snippets_map list_all_iff
  proof
    fix s assume "s \<in> set (map (snippet_of_match src) ?ms)"
    then obtain mt where mt: "mt \<in> set ?ms" and s: "s = snippet_of_match src mt" by auto
    obtain a b tag body where e: "mt = (a, b, tag, body)" by (cases mt)
    from mt code_matches_fenced [of src] have "fenced_block_at src mt"
      by (simp add: list_all_iff)
    then have "a \<le> b" by (simp add: fenced_block_at_def e)
    then show "1 \<le> line_start s \<and> line_start s \<le> line_end s"
      by (simp add: s e snippet_of_match_def count_newlines_take_mono)
  qed
  have "sorted_wrt (\<lambda>x y. line_start (snippet_of_match src x) \<le> line_start (snippet_of_match src y)) ?ms"
  proof (rule sorted_wrt_mono_rel [OF _ finditer_in_text_order [unfolded in_text_order_def]])
    fix x y :: "nat \<times> nat \<times> string option \<times> string"
    assume "fst x < fst y \<and> fst (snd x) \<le> fst y"
    then show "line_start (snippet_of_match src x) \<le> line_start (snippet_of_match src y)"
      by (cases x, cases y) (simp add: snippet_of_match_def count_newlines_take_mono)
  qed
  then have so: "sorted (map line_start (extract_code_snippets src))"
    unfolding extract_code_snippets_map by (simp add: sorted_map sorted_wrt_map)
  from extract_code_snippets_map code_matches_fenced finditer_in_text_order le so
  show ?thesis by blast
qed

theorem code_snippets_contract_witness:
  "extract_code_snippets
     (''intro\<newline>'' @ fence @ ''python\<newline>print(1)\<newline>'' @ fence @ ''\<newline>'' @ fence @ ''\<newline> x=1\<newline>'' @ fence) =
     [\<lparr>code = ''print(1)'', language = ''python'',
       snippet_description = ''Code snippet in python'', line_start = 2, line_end = 4\<rparr>,
      \<lparr>code = ''x=1'', language = ''unknown'',
       snippet_description = ''Code snippet in unknown'', line_start = 5, line_end = 7\<rparr>] \<and>
   finditer match_code_block
     (''intro\<newline>'' @ fence @ ''python\<newline>print(1)\<newline>'' @ fence @ ''\<newline>'' @ fence @ ''\<newline> x=1\<newline>'' @ fence) 0 =
     [(6, 28, Some ''python'', ''print(1)''), (29, 41, None, '' x=1'')]"
proof -
  let ?src = "''intro\<newline>'' @ fence @ ''python\<newline>print(1)\<newline>'' @ fence @ ''\<newline>'' @ fence @ ''\<newline> x=1\<newline>'' @ fence"
  have m: "finditer match_code_block ?src 0 =
      [(6, 28, Some ''python'', ''print(1)''), (29, 41, None, '' x=1'')]"
    by code_simp
  have s: "map (snippet_of_match ?src) [(6, 28, Some ''python'', ''print(1)''), (29, 41, None, '' x=1'')] =
      [\<lparr>code = ''print(1)'', language = ''python'',
        snippet_description = ''Code snippet in python'', line_start = 2, line_end = 4\<rparr>,
       \<lparr>code = ''x=1'', language = ''unknown'',
        snippet_description = ''Code snippet in unknown'', line_start = 5, line_end = 7\<rparr>]"
    by code_simp
  from code_snippets_contract [of ?src] have
    "extract_code_snippets ?src = map (snippet_of_match ?src) (finditer match_code_block ?src 0)"
    by (rule conjunct1)
  with m s show ?thesis by simp
qed

section \<open>Formulas\<close>

lemma strip_nonblank: "strip g \<noteq> [] \<Longrightarrow> \<not> is_blank (strip g)"
proof -
  assume a: "strip g \<noteq> []"
  let ?r = "rev (dropWhile isspace (rev g))"
  have s: "strip g = dropWhile isspace ?r"
    by (simp add: strip_def strip_chars_def lstrip_chars_def rstrip_chars_def)
  with a have "\<not> isspace (hd (dropWhile isspace ?r))"
    using hd_dropWhile [of isspace ?r] by simp
  moreover from a s have "hd (dropWhile isspace ?r) \<in> set (strip g)"
    by simp
  ultimately show ?thesis
    unfolding blank_iff by blast
qed

lemma formula_step_append:
  "formula_step src acc mt =
     acc @ map (formula_of_match src) (filter (\<lambda>mt. \<not> is_blank (snd (snd mt))) [mt])"
  by (cases mt) (simp add: formula_step_def formula_of_match_def Let_def is_blank_def)

lemma foldl_formula_step:
  "foldl (formula_step src) acc ms =
     acc @ map (formula_of_match src) (filter (\<lambda>mt. \<not> is_blank (snd (snd mt))) ms)"
proof (induction ms arbitrary: acc)
  case Nil
  show ?case by simp
next
  case (Cons mt ms)
  have "foldl (formula_step src) acc (mt # ms) = foldl (formula_step src) (formula_step src acc mt) ms"
    by simp
  also have "\<dots> = formula_step src acc mt @
      map (formula_of_match src) (filter (\<lambda>mt. \<not> is_blank (snd (snd mt))) ms)"
    by (rule Cons.IH)
  also have "\<dots> = acc @ map (formula_of_match src) (filter (\<lambda>mt. \<not> is_blank (snd (snd mt))) (mt # ms))"
    by (subst formula_step_append) simp
  finally show ?case .
qed

lemma extract_formulas_families:
  "extract_formulas src = concat (map (family_formulas src) formula_patterns)"
proof -
  have "foldl (\<lambda>formulas pattern.
          foldl (formula_step src) formulas (finditer (match_delim pattern) src 0)) acc ps =
        acc @ concat (map (family_formulas src) ps)" for acc ps
    by (induction ps arbitrary: acc)
      (simp_all add: foldl_formula_step family_formulas_def family_matches_def)
  then show ?thesis
    by (simp add: extract_formulas_def)
qed

lemma family_matches_in_text_order: "in_text_order (family_matches src p)"
  using finditer_in_text_order [of "match_delim p" src 0]
  unfolding family_matches_def in_text_order_def by (rule sorted_wrt_filter)

lemma family_formulas_sorted: "sorted (map line_number (family_formulas src p))"
proof -
  have "sorted_wrt (\<lambda>x y. line_number (formula_of_match src x) \<le> line_number (formula_of_match src y))
      (family_matches src p)"
  proof (rule sorted_wrt_mono_rel [OF _ family_matches_in_text_order [unfolded in_text_order_def]])
    fix x y :: "nat \<times> nat \<times> string"
    assume "fst x < fst y \<and> fst (snd x) \<le> fst y"
    then show "line_number (formula_of_match src x) \<le> line_number (formula_of_match src y)"
      by (cases x, cases y) (simp add: formula_of_match_def count_newlines_take_mono)
  qed
  then show ?thesis
    by (simp add: family_formulas_def sorted_map sorted_wrt_map)
qed

text \<open>
  C10. The output of \<open>extract_formulas\<close> is grouped by pattern family: the records of
  the display-math matches, then those of the inline-math matches, then those of the
  equation-environment matches, wherever the matches are in the text. Within a family the
  records follow the positions of their matches, so their line numbers never decrease. On
  \<open>$a$ $$b$$\<close> the display formula \<open>b\<close> comes before the inline formula \<open>a\<close>.
\<close>
theorem formulas_grouped_by_family:
  "extract_formulas src =
     family_formulas src (''$$'', ''$$'') @
     family_formulas src (''$'', ''$'') @
     family_formulas src (CHR 0x5C # ''begin{equation}'', CHR 0x5C # ''end{equation}'') \<and>
   (\<forall>p. in_text_order (family_matches src p) \<and> sorted (map line_number (family_formulas src p))) \<and>
   map formula (extract_formulas ''$a$ $$b$$'') = [''b'', ''a'']"
proof -
  have e: "map formula (extract_formulas ''$a$ $$b$$'') = [''b'', ''a'']"
    by code_simp
  show ?thesis
    using e family_matches_in_text_order family_formulas_sorted
    by (simp add: extract_formulas_families formula_patterns_def)
qed

text \<open>
  C6. Every record of \<open>extract_formulas\<close> has a formula that is neither empty nor blank,
  and there are exactly as many records as there are matches with a capture that is not
  blank: a match with an empty or blank capture gives no record. The input
  \<open>$$E=mc^2$$\<close> gives exactly one record, with formula \<open>E=mc^2\<close> and type
  \<open>mathematical\<close>; the input \<open>$$ $$\<close> gives none.
\<close>
theorem formulas_never_blank:
  "list_all (\<lambda>f. formula f \<noteq> [] \<and> \<not> is_blank (formula f)) (extract_formulas src) \<and>
   length (extract_formulas src) = length (concat (map (family_matches src) formula_patterns)) \<and>
   extract_formulas ''$$E=mc^2$$'' =
     [\<lparr>formula = ''E=mc^2'', formula_description = ''Mathematical expression: E=mc^2'',
       formula_type = ''mathematical'', line_number = 1\<rparr>] \<and>
   extract_formulas ''$$ $$'' = []"
proof -
  have a: "formula f \<noteq> [] \<and> \<not> is_blank (formula f)" if "f \<in> set (family_formulas src p)" for f p
  proof -
    from that obtain mt where mt: "\<not> is_blank (snd (snd mt))" and f: "f = formula_of_match src mt"
      by (auto simp: family_formulas_def family_matches_def)
    obtain a b g where e: "mt = (a, b, g)" by (cases mt)
    from mt e have "strip g \<noteq> []" by (simp add: is_blank_def)
    with strip_nonblank [of g] show ?thesis by (simp add: f e formula_of_match_def)
  qed
  have b: "list_all (\<lambda>f. formula f \<noteq> [] \<and> \<not> is_blank (formula f)) (extract_formulas src)"
    unfolding extract_formulas_families list_all_iff using a by auto
  have c: "length (extract_formulas src) = length (concat (map (family_matches src) formula_patterns))"
    by (simp add: extract_formulas_families family_formulas_def formula_patterns_def)
  have d: "extract_formulas ''$$E=mc^2$$'' =
     [\<lparr>formula = ''E=mc^2'', formula_description = ''Mathematical expression: E=mc^2'',
       formula_type = ''mathematical'', line_number = 1\<rparr>]"
    by code_simp
  have e: "extract_formulas ''$$ $$'' = []"
    by code_simp
  from b c d e show ?thesis by blast
qed

theorem formulas_never_blank_witness:
  "map formula (extract_formulas ''x $ $ $$ y $$ $z$'') = [''y'', ''z''] \<and>
   map (family_matches ''x $ $ $$ y $$ $z$'') formula_patterns =
     [[(6, 13, '' y '')], [(14, 17, ''z'')], []]"
proof -
  let ?src = "''x $ $ $$ y $$ $z$''"
  have e: "map formula (extract_formulas ?src) = [''y'', ''z'']"
    "map (family_matches ?src) formula_patterns = [[(6, 13, '' y '')], [(14, 17, ''z'')], []]"
    by code_simp+
  from formulas_never_blank [of ?src] e show ?thesis by simp
qed

theorem formulas_grouped_by_family_witness:
  "extract_formulas (''$a$'' @ CHR 0x5C # ''begin{equation}c'' @ CHR 0x5C # ''end{equation}\<newline>$$b$$'') =
     family_formulas (''$a$'' @ CHR 0x5C # ''begin{equation}c'' @ CHR 0x5C # ''end{equation}\<newline>$$b$$'') (''$$'', ''$$'') @
     family_formulas (''$a$'' @ CHR 0x5C # ''begin{equation}c'' @ CHR 0x5C # ''end{equation}\<newline>$$b$$'') (''$'', ''$'') @
     family_formulas (''$a$'' @ CHR 0x5C # ''begin{equation}c'' @ CHR 0x5C # ''end{equation}\<newline>$$b$$'')
       (CHR 0x5C # ''begin{equation}'', CHR 0x5C # ''end{equation}'') \<and>
   map formula (extract_formulas (''$a$'' @ CHR 0x5C # ''begin{equation}c'' @ CHR 0x5C # ''end{equation}\<newline>$$b$$'')) =
     [''b'', ''a'', ''c''] \<and>
   map line_number (extract_formulas (''$a$'' @ CHR 0x5C # ''begin{equation}c'' @ CHR 0x5C # ''end{equation}\<newline>$$b$$'')) =
     [2, 1, 1]"
proof -
  let ?src = "''$a$'' @ CHR 0x5C # ''begin{equation}c'' @ CHR 0x5C # ''end{equation}\<newline>$$b$$''"
  have e: "map formula (extract_formulas ?src) = [''b'', ''a'', ''c'']"
    "map line_number (extract_formulas ?src) = [2, 1, 1]"
    by code_simp+
  from formulas_grouped_by_family [of ?src] e show ?thesis by simp
qed

section \<open>The title\<close>

lemma title_scan_find:
  "title_scan t ls =
     (case List.find title_candidate ls of None \<Rightarrow> t | Some l \<Rightarrow> title_of_line l)"
proof (induction ls)
  case Nil
  show ?case by simp
next
  case (Cons l ls)
  consider "is_heading l" | "\<not> is_heading l" "\<not> is_blank l \<and> length (strip l) < 100"
    | "\<not> is_heading l" "\<not> (\<not> is_blank l \<and> length (strip l) < 100)"
    by blast
  then show ?case
  proof cases
    case 1
    then show ?thesis
      by (simp add: title_candidate_def title_of_line_def heading_title_def is_heading_def)
  next
    case 2
    then show ?thesis
      by (simp add: title_candidate_def title_of_line_def is_heading_def is_blank_def)
  next
    case 3
    then have nc: "\<not> title_candidate l"
      by (simp add: title_candidate_def)
    from 3 have "title_scan t (l # ls) = title_scan t ls"
      by (auto simp: is_heading_def is_blank_def)
    with Cons.IH nc show ?thesis by simp
  qed
qed

lemma extract_title_length: "length (extract_title doc) \<le> 200"
  by (simp add: extract_title_def Let_def)

text \<open>
  What \<open>extract_title\<close> computes: the explicit title when it is present and not empty;
  otherwise the title of the first of the first 10 lines of \<open>main_text\<close> that is a heading
  line or a short non-blank line; otherwise the fallback; at most 200 characters.
\<close>
lemma extract_title_first_candidate:
  "(doc_title doc = Some dt \<and> dt \<noteq> [] \<longrightarrow> extract_title doc = take 200 dt) \<and>
   ((doc_title doc = None \<or> doc_title doc = Some []) \<and> doc_main_text doc = Some mt \<and>
      List.find title_candidate (take 10 (lines_of mt)) = Some l \<longrightarrow>
    extract_title doc = take 200 (title_of_line l)) \<and>
   ((doc_title doc = None \<or> doc_title doc = Some []) \<and>
      (doc_main_text doc = None \<or>
       doc_main_text doc = Some mt \<and> List.find title_candidate (take 10 (lines_of mt)) = None) \<longrightarrow>
    extract_title doc = ''Untitled Document'') \<and>
   length (extract_title doc) \<le> 200"
proof -
  have a: "extract_title doc = take 200 dt" if "doc_title doc = Some dt" "dt \<noteq> []"
    using that by (simp add: extract_title_def)
  have b: "extract_title doc = take 200 (title_of_line l)"
    if "doc_title doc = None \<or> doc_title doc = Some []" "doc_main_text doc = Some mt"
      "List.find title_candidate (take 10 (lines_of mt)) = Some l"
    using that by (auto simp: extract_title_def title_scan_find lines_of_def)
  have c: "extract_title doc = ''Untitled Document''"
    if "doc_title doc = None \<or> doc_title doc = Some []"
      "doc_main_text doc = None \<or>
       doc_main_text doc = Some mt \<and> List.find title_candidate (take 10 (lines_of mt)) = None"
    using that by (auto simp: extract_title_def title_scan_find lines_of_def)
  from a b c extract_title_length show ?thesis by blast
qed

text \<open>
  C7. The claim gives the title as the explicit title, otherwise the text of a heading line
  among the first 10 lines of the raw text, otherwise the first short non-blank line,
  otherwise the fallback, and at most 200 characters in every case. Three inputs on which
  the code does otherwise. A document without a title whose \<open>main_text\<close> and Markdown are
  \<open>Foo / # Bar\<close>: the scan of \<open>extract_title\<close> stops at the short line \<open>Foo\<close> and never
  reaches the heading \<open>Bar\<close>, and so does the class-based title. A document without a
  title and without \<open>main_text\<close> whose Markdown is \<open># Bar / text\<close>: \<open>extract_title\<close> does
  not scan the Markdown and returns the fallback, where the class-based title is \<open>Bar\<close>.
  A document whose Markdown is one heading of 201 characters: the class-based title is not
  cut to 200 characters.
\<close>
theorem extract_title_misses_heading:
  "extract_title \<lparr>doc_title = None, doc_main_text = Some ''Foo\<newline># Bar'',
     doc_pages = None :: unit list option, doc_private_pages = None, doc_pictures = None,
     doc_tables = None :: unit list option, doc_markdown = ''Foo\<newline># Bar''\<rparr> = ''Foo'' \<and>
   claimed_title \<lparr>doc_title = None, doc_main_text = Some ''Foo\<newline># Bar'',
     doc_pages = None :: unit list option, doc_private_pages = None, doc_pictures = None,
     doc_tables = None :: unit list option, doc_markdown = ''Foo\<newline># Bar''\<rparr> = ''Bar'' \<and>
   process_pdf_title \<lparr>doc_title = None, doc_main_text = Some ''Foo\<newline># Bar'',
     doc_pages = None :: unit list option, doc_private_pages = None, doc_pictures = None,
     doc_tables = None :: unit list option, doc_markdown = ''Foo\<newline># Bar''\<rparr> = ''Foo'' \<and>
   extract_title \<lparr>doc_title = None, doc_main_text = None,
     doc_pages = None :: unit list option, doc_private_pages = None, doc_pictures = None,
     doc_tables = None :: unit list option, doc_markdown = ''# Bar\<newline>text''\<rparr> = ''Untitled Document'' \<and>
   claimed_title \<lparr>doc_title = None, doc_main_text = None,
     doc_pages = None :: unit list option, doc_private_pages = None, doc_pictures = None,
     doc_tables = None :: unit list option, doc_markdown = ''# Bar\<newline>text''\<rparr> = ''Bar'' \<and>
   process_pdf_title \<lparr>doc_title = None, doc_main_text = None,
     doc_pages = None :: unit list option, doc_private_pages = None, doc_pictures = None,
     doc_tables = None :: unit list option, doc_markdown = ''# Bar\<newline>text''\<rparr> = ''Bar'' \<and>
   length (process_pdf_title \<lparr>doc_title = None, doc_main_text = None,
     doc_pages = None :: unit list option, doc_private_pages = None, doc_pictures = None,
     doc_tables = None :: unit list option,
     doc_markdown = ''# '' @ replicate 201 (CHR ''a'')\<rparr>) = 201"
  by code_simp

section \<open>Missing capability fields\<close>

text \<open>
  C8. A capability field that is missing gives the default and nothing else changes:
  without \<open>pages\<close> and \<open>_pages\<close> the page count is 1; without \<open>pictures\<close> there are
  no images, \<open>extract_image_descriptions\<close> returns the empty list and \<open>main\<close> attaches
  no image descriptions; without \<open>tables\<close> there are no tables; without a title and a
  \<open>main_text\<close> the title is \<open>Untitled Document\<close>. The functions are total on every
  document, so metadata and sections are always produced.
\<close>
theorem missing_fields_default:
  "(doc_pages doc = None \<and> doc_private_pages doc = None \<longrightarrow>
      page_count (extract_metadata version doc args) = 1) \<and>
   (doc_pictures doc = None \<longrightarrow>
      \<not> has_images (extract_metadata version doc args) \<and>
      extract_image_descriptions doc = [] \<and>
      out_image_descriptions (build_content vlm_available version doc args) = None) \<and>
   (doc_tables doc = None \<longrightarrow> \<not> has_tables (extract_metadata version doc args)) \<and>
   (doc_title doc = None \<and> doc_main_text doc = None \<longrightarrow>
      meta_title (extract_metadata version doc args) = ''Untitled Document'') \<and>
   out_metadata (build_content vlm_available version doc args) = extract_metadata version doc args \<and>
   out_sections (build_content vlm_available version doc args) = process_sections (doc_markdown doc)"
  by (simp add: extract_metadata_def extract_image_descriptions_def build_content_def
      extract_title_def Let_def)

theorem missing_fields_default_witness:
  "extract_metadata None
     \<lparr>doc_title = None, doc_main_text = None, doc_pages = None :: unit list option,
      doc_private_pages = None, doc_pictures = None, doc_tables = None :: unit list option,
      doc_markdown = ''plain''\<rparr>
     \<lparr>no_ocr = False, no_vlm = False, vlm_model = ''SmolDocling'',
      enable_code_enrichment = True, enable_formula_enrichment = True\<rparr> =
     \<lparr>meta_title = ''Untitled Document'', page_count = 1, has_images = False,
      has_tables = False, has_code = False, has_formulas = False,
      processing_info =
        \<lparr>ocr_enabled = True, vlm_enabled = True, code_enrichment_enabled = True,
         formula_enrichment_enabled = True, docling_version = ''unknown'',
         info_vlm_model = Some ''SmolDocling''\<rparr>\<rparr> \<and>
   extract_image_descriptions
     \<lparr>doc_title = None, doc_main_text = None, doc_pages = None :: unit list option,
      doc_private_pages = None, doc_pictures = None, doc_tables = None :: unit list option,
      doc_markdown = ''plain''\<rparr> = []"
proof -
  let ?d = "\<lparr>doc_title = None, doc_main_text = None, doc_pages = None :: unit list option,
      doc_private_pages = None, doc_pictures = None, doc_tables = None :: unit list option,
      doc_markdown = ''plain''\<rparr>"
  let ?a = "\<lparr>no_ocr = False, no_vlm = False, vlm_model = ''SmolDocling'',
      enable_code_enrichment = True, enable_formula_enrichment = True\<rparr>"
  have e: "has_code (extract_metadata None ?d ?a) = False"
    "has_formulas (extract_metadata None ?d ?a) = False"
    "processing_info (extract_metadata None ?d ?a) =
       \<lparr>ocr_enabled = True, vlm_enabled = True, code_enrichment_enabled = True,
        formula_enrichment_enabled = True, docling_version = ''unknown'',
        info_vlm_model = Some ''SmolDocling''\<rparr>"
    by code_simp+
  from missing_fields_default [of ?d None ?a True] e show ?thesis
    by (cases "extract_metadata None ?d ?a") simp
qed

section \<open>Order indices: the exact values\<close>

lemma index_title_save_section:
  "map index_and_title (save_section st) =
     map index_and_title (st_sections st) @
       (case st_current st of None \<Rightarrow> []
        | Some cur \<Rightarrow> if st_content st \<noteq> [] then [index_and_title cur] else [])"
  by (simp add: save_section_def Let_def index_and_title_def split: option.splits)

lemma filled_headings_from_Nil [simp]: "filled_headings_from n [] = []"
  by (simp add: filled_headings_from_def)

lemma filled_headings_from_heading:
  "is_heading l \<Longrightarrow> filled_headings_from n (l # ls) =
     (if list_all is_blank (takeWhile (\<lambda>x. \<not> is_heading x) ls) then []
      else [(n, heading_title l)]) @ filled_headings_from (Suc n) ls"
  by (simp add: filled_headings_from_def block_filled_def)

lemma filled_headings_from_other:
  "\<not> is_heading l \<Longrightarrow> filled_headings_from n (l # ls) = filled_headings_from n ls"
  by (simp add: filled_headings_from_def)

lemma index_title_foldl:
  "map index_and_title (save_section (foldl seg_step st ls)) =
     map index_and_title (st_sections st) @
     (case st_current st of
        None \<Rightarrow> []
      | Some cur \<Rightarrow>
          if st_content st \<noteq> [] \<or> \<not> list_all is_blank (takeWhile (\<lambda>x. \<not> is_heading x) ls)
          then [index_and_title cur] else []) @
     filled_headings_from (st_order_index st) ls"
proof (induction ls arbitrary: st)
  case Nil
  show ?case by (simp add: index_title_save_section split: option.splits)
next
  case (Cons l ls)
  consider "is_heading l" | "\<not> is_heading l" "\<not> is_blank l" | "\<not> is_heading l" "is_blank l"
    by blast
  then show ?case
  proof cases
    case 1
    show ?thesis
      unfolding foldl_Cons Cons.IH filled_headings_from_heading [OF 1]
      using 1 by (simp add: seg_step_heading [OF 1] index_title_save_section index_and_title_def
          heading_title_def split: option.splits)
  next
    case 2
    show ?thesis
      unfolding foldl_Cons Cons.IH filled_headings_from_other [OF 2(1)]
      using 2 by (simp add: seg_step_text [OF 2] split: option.splits)
  next
    case 3
    show ?thesis
      unfolding foldl_Cons Cons.IH filled_headings_from_other [OF 3(1)]
      using 3 by (simp add: seg_step_skip [OF 3] split: option.splits)
  qed
qed

lemma heading_blocks_headings: "map fst (heading_blocks ls) = filter is_heading ls"
  by (induction ls) simp_all

lemma process_sections_index_title:
  "map index_and_title (process_sections md) =
     (if filled_headings md = [] \<and> strip md \<noteq> [] then [(0, ''Content'')]
      else filled_headings md)"
proof -
  let ?secs = "save_section (foldl seg_step seg_init (lines_of md))"
  have e: "map index_and_title ?secs = filled_headings md"
    by (simp add: index_title_foldl seg_init_def filled_headings_def)
  then have n: "?secs = [] \<longleftrightarrow> filled_headings md = []"
    by (metis map_is_Nil_conv)
  show ?thesis
    unfolding process_sections_cases using e n by (simp add: index_and_title_def)
qed


lemma strip_Nil_iff: "strip s = [] \<longleftrightarrow> (\<forall>c\<in>set s. isspace c)"
  by (simp add: strip_def strip_chars_Nil_iff)

lemma cs_heading_not_blank:
  assumes "cs_is_heading l"
  shows "strip (a @ l @ b) \<noteq> []"
proof -
  from assms have "strip l \<noteq> []"
    by (auto simp: cs_is_heading_def startswith_def)
  then obtain c where "c \<in> set l" "\<not> isspace c"
    unfolding strip_Nil_iff by blast
  then show ?thesis
    unfolding strip_Nil_iff by auto
qed

lemma order_index_cs_save:
  "map order_index (cs_save st) =
     map order_index (cs_sections st) @
       (if strip (content (cs_current st)) \<noteq> [] then [order_index (cs_current st)] else [])"
  by (simp add: cs_save_def)

lemma cs_step_heading:
  "cs_is_heading l \<Longrightarrow> cs_step st l =
     \<lparr>cs_sections = cs_save st,
      cs_current = \<lparr>title = strip (lstrip_hash (strip l)), content = l @ [CHR 0x0A],
                     order_index = cs_index st + 1, estimated_minutes = 0\<rparr>,
      cs_index = cs_index st + 1\<rparr>"
  by (simp add: cs_step_def cs_is_heading_def Let_def)

lemma cs_step_other:
  "\<not> cs_is_heading l \<Longrightarrow> cs_step st l =
     st\<lparr>cs_current := (cs_current st)\<lparr>content := content (cs_current st) @ l @ [CHR 0x0A]\<rparr>\<rparr>"
  by (simp add: cs_step_def cs_is_heading_def Let_def)

lemma order_index_cs_foldl:
  "map order_index (cs_save (foldl cs_step st ls)) =
     map order_index (cs_sections st) @
     (if strip (content (cs_current st) @
                with_newlines (takeWhile (\<lambda>l. \<not> cs_is_heading l) ls)) \<noteq> []
      then [order_index (cs_current st)] else []) @
     [Suc (cs_index st)..<Suc (cs_index st) + length (filter cs_is_heading ls)]"
proof (induction ls arbitrary: st)
  case Nil
  show ?case by (simp add: order_index_cs_save with_newlines_def)
next
  case (Cons l ls)
  show ?case
  proof (cases "cs_is_heading l")
    case True
    have nb: "strip ((l @ [CHR 0x0A]) @ with_newlines (takeWhile (\<lambda>l. \<not> cs_is_heading l) ls)) \<noteq> []"
      using cs_heading_not_blank [OF True, of "[]"] by simp
    have u: "Suc (cs_index st) # [Suc (Suc (cs_index st))..<Suc (Suc (cs_index st)) + n] =
        [Suc (cs_index st)..<Suc (cs_index st) + Suc n]" for n
      by (simp add: upt_conv_Cons del: upt_Suc)
    show ?thesis
      unfolding foldl_Cons Cons.IH
      using True nb u
      by (simp add: cs_step_heading [OF True] order_index_cs_save with_newlines_def del: upt_Suc)
  next
    case False
    show ?thesis
      unfolding foldl_Cons Cons.IH
      using False by (simp add: cs_step_other [OF False] with_newlines_def)
  qed
qed

lemma isspace_newline: "isspace (CHR 0x0A)"
  by (simp add: isspace_def)

lemma with_newlines_blank: "strip (with_newlines ls) = [] \<longleftrightarrow> list_all is_blank ls"
  unfolding strip_Nil_iff with_newlines_def
  by (induction ls) (auto simp: blank_iff isspace_newline)

lemma create_sections_indices:
  "map order_index (create_sections md) =
     [(if list_all is_blank (cs_leading_lines md) then 1 else 0)..<Suc (cs_heading_count md)]"
proof -
  have "map order_index (create_sections md) =
      (if strip (with_newlines (cs_leading_lines md)) \<noteq> [] then [0] else []) @
      [Suc 0..<Suc 0 + cs_heading_count md]"
    by (simp add: create_sections_def Let_def order_index_cs_foldl cs_init_def
        cs_leading_lines_def cs_heading_count_def lines_of_def del: upt_Suc)
  also have "\<dots> = [(if list_all is_blank (cs_leading_lines md) then 1 else 0)..<Suc (cs_heading_count md)]"
    by (simp add: with_newlines_blank upt_conv_Cons del: upt_Suc)
  finally show ?thesis .
qed


text \<open>
  C1 (as amended). In \<open>process_sections\<close> the order index of a section is the zero-based
  ordinal of its heading line among the heading lines of the input, and the sections are
  those of the heading lines that are followed by a non-blank line before the next heading
  line, in document order: a heading line without content gives no section and leaves a
  gap. When no heading line has content and the input is not blank, the only section is the
  catch-all one, with index 0. So the indices are strictly increasing and below
  \<open>max 1 N\<close> for \<open>N\<close> heading lines; when \<open>N \<ge> 1\<close> and every heading line has content
  there are exactly \<open>N\<close> sections, with the indices \<open>0..N-1\<close> and the titles of the
  heading lines in document order. In \<open>_create_sections\<close> the indices are contiguous and
  strictly increasing, from 0 when a non-blank line precedes the first heading line and
  from 1 otherwise, up to the number of its heading lines.
\<close>
theorem order_index_increasing:
  "map index_and_title (process_sections md) =
     (if filled_headings md = [] \<and> strip md \<noteq> [] then [(0, ''Content'')]
      else filled_headings md) \<and>
   map fst (heading_blocks (lines_of md)) = filter is_heading (lines_of md) \<and>
   sorted_wrt (<) (map order_index (process_sections md)) \<and>
   (\<forall>i\<in>set (map order_index (process_sections md)). i < max 1 (heading_count md)) \<and>
   (0 < heading_count md \<and> headings_filled False (lines_of md) \<longrightarrow>
      map order_index (process_sections md) = [0..<heading_count md] \<and>
      map title (process_sections md) = map heading_title (filter is_heading (lines_of md))) \<and>
   map order_index (create_sections md) =
     [(if list_all is_blank (cs_leading_lines md) then 1 else 0)..<Suc (cs_heading_count md)] \<and>
   sorted_wrt (<) (map order_index (create_sections md))"
proof -
  let ?st = "foldl seg_step seg_init (lines_of md)"
  have inv: "idx_inv ?st" by (intro idx_inv_foldl idx_inv_init)
  have n: "st_order_index ?st = heading_count md"
    by (simp add: st_order_index_foldl heading_count_def seg_init_def)
  have ps: "process_sections md = save_section ?st \<or>
        map order_index (process_sections md) = [0]"
    by (simp add: process_sections_def lines_of_def Let_def)
  have a: "sorted_wrt (<) (map order_index (process_sections md))"
    using ps idx_inv_save [OF inv] by auto
  have a': "sorted_wrt (<) (map order_index (create_sections md))"
    using cs_inv_save [OF cs_inv_foldl [OF cs_inv_init]]
    by (simp add: create_sections_def Let_def)
  have b: "\<forall>i\<in>set (map order_index (process_sections md)). i < max 1 (heading_count md)"
    using ps idx_inv_save [OF inv] n by (auto simp: max_def)
  have c: "map order_index (process_sections md) = [0..<heading_count md] \<and>
      map title (process_sections md) = map heading_title (filter is_heading (lines_of md))"
    if h: "0 < heading_count md" "headings_filled False (lines_of md)"
  proof -
    have i: "filled_inv seg_init" "\<not> pending seg_init"
      by (simp_all add: filled_inv_def pending_def seg_init_def)
    with h(2) have e: "map order_index (save_section ?st) = [0..<heading_count md]"
      using filled_foldl [of seg_init "lines_of md"]
      by (simp add: heading_count_def seg_init_def)
    have t: "map title (save_section ?st) = map heading_title (filter is_heading (lines_of md))"
      using filled_titles [of seg_init "lines_of md"] h(2) i(2)
      by (simp add: seg_init_def)
    have "save_section ?st \<noteq> []"
    proof
      assume "save_section ?st = []"
      with e have "[0..<heading_count md] = []" by simp
      with h(1) show False by simp
    qed
    then have "process_sections md = save_section ?st"
      by (simp add: process_sections_def lines_of_def Let_def)
    with e t show ?thesis by simp
  qed
  note d = process_sections_index_title [of md] heading_blocks_headings [of "lines_of md"]
    create_sections_indices [of md]
  from a a' b c d show ?thesis by blast
qed

theorem order_index_increasing_witness:
  "0 < heading_count ''# A\<newline>x\<newline>## B\<newline>y'' \<and>
   headings_filled False (lines_of ''# A\<newline>x\<newline>## B\<newline>y'') \<and>
   map order_index (process_sections ''# A\<newline>x\<newline>## B\<newline>y'') = [0, 1] \<and>
   map title (process_sections ''# A\<newline>x\<newline>## B\<newline>y'') = [''A'', ''B''] \<and>
   map index_and_title (process_sections ''# A\<newline># B\<newline>text\<newline>#\<newline># D\<newline>more'') =
     [(1, ''B''), (3, ''D'')] \<and>
   map order_index (create_sections ''intro\<newline># A\<newline>x\<newline>## B'') = [0, 1, 2] \<and>
   map order_index (create_sections ''\<newline># A\<newline>x\<newline>## B'') = [1, 2]"
proof -
  let ?md = "''# A\<newline>x\<newline>## B\<newline>y''"
  let ?gap = "''# A\<newline># B\<newline>text\<newline>#\<newline># D\<newline>more''"
  let ?c0 = "''intro\<newline># A\<newline>x\<newline>## B''"
  let ?c1 = "''\<newline># A\<newline>x\<newline>## B''"
  have h: "heading_count ?md = 2" "headings_filled False (lines_of ?md)"
    by code_simp+
  have t: "map heading_title (filter is_heading (lines_of ?md)) = [''A'', ''B'']"
    by code_simp
  have u: "[0..<2] = [0, Suc 0]" by code_simp
  have g: "filled_headings ?gap = [(1, ''B''), (3, ''D'')]"
    by code_simp
  have k: "[(if list_all is_blank (cs_leading_lines ?c0) then 1 else 0)..<Suc (cs_heading_count ?c0)] = [0, 1, 2]"
    "[(if list_all is_blank (cs_leading_lines ?c1) then 1 else 0)..<Suc (cs_heading_count ?c1)] = [1, 2]"
    by code_simp+
  from order_index_increasing [of ?md] h have 1:
    "map order_index (process_sections ?md) = [0, 1] \<and>
     map title (process_sections ?md) = [''A'', ''B'']"
    by (simp add: t u)
  from order_index_increasing [of ?gap] g have 2:
    "map index_and_title (process_sections ?gap) = [(1, ''B''), (3, ''D'')]"
    by simp
  from order_index_increasing [of ?c0] k(1) have 3:
    "map order_index (create_sections ?c0) = [0, 1, 2]"
    by simp
  from order_index_increasing [of ?c1] k(2) have 4:
    "map order_index (create_sections ?c1) = [1, 2]"
    by simp
  from h 1 2 3 4 show ?thesis by simp
qed

theorem order_index_contiguous_counterexample:
  "map order_index (process_sections ''# A\<newline># B\<newline>text'') \<noteq>
     [0..<length (process_sections ''# A\<newline># B\<newline>text'')] \<and>
   length (process_sections ''text'') \<noteq> heading_count ''text'' \<and>
   map order_index (create_sections ''# A\<newline>body'') \<noteq>
     [0..<length (create_sections ''# A\<newline>body'')]"
  by code_simp

end
